theory Spec2Isabelle
  imports Main "HOL-Library.Word"
begin

section \<open>Lexical path operations used by \<^verbatim>\<open>fs/util.go\<close>\<close>

text \<open>
  \<^verbatim>\<open>fs/util.go\<close> calls \<^verbatim>\<open>path.Dir\<close>, \<^verbatim>\<open>path.Base\<close>, \<^verbatim>\<open>path.Join\<close> and
  \<^verbatim>\<open>filepath.Clean\<close> of the Go standard library.  They are transcribed here from
  the library's \<^verbatim>\<open>path/path.go\<close>, byte by byte: a Go string is a sequence of
  bytes, a \<^typ>\<open>string\<close> is a list of 8-bit characters.

  \<^verbatim>\<open>lazybuf\<close> of \<^verbatim>\<open>path.go\<close> is an allocation-avoiding output buffer; its
  contents are the first \<^verbatim>\<open>w\<close> bytes written, which is the list \<open>out\<close> below.
\<close>

text \<open>
  The inner loop of the \<^verbatim>\<open>..\<close> case,
  \<^verbatim>\<open>for out.w > dotdot && out.index(out.w) != '/' { out.w-- }\<close>,
  on the buffer contents \<open>buf\<close>; it returns the final \<^verbatim>\<open>out.w\<close>.  The caller has
  done the \<^verbatim>\<open>out.w--\<close> that precedes the loop.
\<close>

function backtrack :: "string \<Rightarrow> nat \<Rightarrow> nat \<Rightarrow> nat" where
  "backtrack buf dotdot w =
     (if w > dotdot \<and> buf ! w \<noteq> CHR ''/'' then backtrack buf dotdot (w - 1) else w)"
  by pat_completeness auto
termination
  by (relation "measure (\<lambda>(buf, dotdot, w). w)") auto

text \<open>
  The main loop of \<^verbatim>\<open>path.Clean\<close>, \<^verbatim>\<open>for r < n { switch ... }\<close>.  The second
  argument is the unread input \<^verbatim>\<open>path[r:]\<close>, \<open>out\<close> is the buffer written so
  far and \<open>dotdot\<close> the index where a \<^verbatim>\<open>..\<close> must stop.  The four branches are
  the four cases of the \<^verbatim>\<open>switch\<close>, in their order.
\<close>

function clean_loop :: "bool \<Rightarrow> string \<Rightarrow> string \<Rightarrow> nat \<Rightarrow> string" where
  "clean_loop rooted rest0 out dotdot =
     (case rest0 of
        [] \<Rightarrow> out
      | c # rest \<Rightarrow>
         (if c = CHR ''/'' then clean_loop rooted rest out dotdot
          else if c = CHR ''.'' \<and> (rest = [] \<or> hd rest = CHR ''/'') then
            clean_loop rooted rest out dotdot
          else if c = CHR ''.'' \<and> hd rest = CHR ''.'' \<and>
                  (tl rest = [] \<or> hd (tl rest) = CHR ''/'') then
            (if length out > dotdot then
               clean_loop rooted (tl rest)
                 (take (backtrack out dotdot (length out - 1)) out) dotdot
             else if \<not> rooted then
               (let out' = (if length out > 0 then out @ ''/'' else out) @ ''..''
                in clean_loop rooted (tl rest) out' (length out'))
             else clean_loop rooted (tl rest) out dotdot)
          else
            (let out' = (if rooted \<and> length out \<noteq> 1 \<or> \<not> rooted \<and> length out \<noteq> 0
                         then out @ ''/'' else out)
             in clean_loop rooted (dropWhile (\<lambda>x. x \<noteq> CHR ''/'') (c # rest))
                  (out' @ takeWhile (\<lambda>x. x \<noteq> CHR ''/'') (c # rest)) dotdot)))"
  by pat_completeness auto
termination
  by (relation "measure (\<lambda>(rooted, rest, out, dotdot). length rest)")
     (auto simp: less_Suc_eq_le length_dropWhile_le simp del: backtrack.simps)

text \<open>\<^verbatim>\<open>path.Clean\<close>.  On Linux \<^verbatim>\<open>filepath.Clean\<close> runs the same algorithm
  (no volume name, separator \<^verbatim>\<open>/\<close>).\<close>

definition Clean :: "string \<Rightarrow> string" where
  "Clean p =
     (if p = [] then ''.''
      else
        let rooted = (hd p = CHR ''/'');
            out = clean_loop rooted (if rooted then tl p else p)
                    (if rooted then ''/'' else []) (if rooted then 1 else 0)
        in if length out = 0 then ''.'' else out)"

definition filepath_Clean :: "string \<Rightarrow> string" where
  "filepath_Clean p = Clean p"

text \<open>\<^verbatim>\<open>bytealg.LastIndexByteString\<close>: the scan
  \<^verbatim>\<open>for i := len(s) - 1; i >= 0; i-- { if s[i] == c { return i } }; return -1\<close>;
  the third argument is \<^verbatim>\<open>i + 1\<close>.\<close>

primrec last_index_from :: "string \<Rightarrow> char \<Rightarrow> nat \<Rightarrow> int" where
  "last_index_from s c 0 = - 1"
| "last_index_from s c (Suc i) = (if s ! i = c then int i else last_index_from s c i)"

definition LastIndexByte :: "string \<Rightarrow> char \<Rightarrow> int" where
  "LastIndexByte s c = last_index_from s c (length s)"

text \<open>\<^verbatim>\<open>path.Split\<close>: \<^verbatim>\<open>return path[:i+1], path[i+1:]\<close>.\<close>

definition Split :: "string \<Rightarrow> string \<times> string" where
  "Split p = (let i = LastIndexByte p (CHR ''/'') in (take (nat (i + 1)) p, drop (nat (i + 1)) p))"

text \<open>\<^verbatim>\<open>path.Dir\<close>.\<close>

definition Dir :: "string \<Rightarrow> string" where
  "Dir p = Clean (fst (Split p))"

text \<open>The loop of \<^verbatim>\<open>path.Base\<close> that strips trailing slashes.\<close>

function strip_trailing_slashes :: "string \<Rightarrow> string" where
  "strip_trailing_slashes p =
     (if length p > 0 \<and> p ! (length p - 1) = CHR ''/''
      then strip_trailing_slashes (take (length p - 1) p) else p)"
  by pat_completeness auto
termination
  by (relation "measure length") auto

text \<open>\<^verbatim>\<open>path.Base\<close>.\<close>

definition Base :: "string \<Rightarrow> string" where
  "Base p =
     (if p = [] then ''.''
      else
        let p1 = strip_trailing_slashes p;
            i = LastIndexByte p1 (CHR ''/'');
            p2 = (if i \<ge> 0 then drop (nat (i + 1)) p1 else p1)
        in if p2 = [] then ''/'' else p2)"

text \<open>The loop of \<^verbatim>\<open>path.Join\<close> that fills \<^verbatim>\<open>buf\<close>:
  \<^verbatim>\<open>if len(buf) > 0 || e != "" { if len(buf) > 0 { buf = append(buf, '/') }; buf = append(buf, e...) }\<close>.\<close>

fun join_buf :: "string \<Rightarrow> string list \<Rightarrow> string" where
  "join_buf buf [] = buf"
| "join_buf buf (e # es) =
     (if length buf > 0 \<or> e \<noteq> []
      then join_buf ((if length buf > 0 then buf @ ''/'' else buf) @ e) es
      else join_buf buf es)"

text \<open>\<^verbatim>\<open>path.Join\<close>, as in current Go releases.  (Older releases clean
  \<^verbatim>\<open>strings.Join(elem[i:], "/")\<close> from the first non-empty element \<^verbatim>\<open>i\<close>; the extra
  slashes that empty elements leave there are removed by \<^verbatim>\<open>Clean\<close>.)\<close>

definition Join :: "string list \<Rightarrow> string" where
  "Join elem =
     (if sum_list (map length elem) = 0 then [] else Clean (join_buf [] elem))"

text \<open>\<^verbatim>\<open>strings.Split(s, sep)\<close> for a one-byte separator: the loop of
  \<^verbatim>\<open>genSplit\<close>, \<^verbatim>\<open>m := Index(s, sep); if m < 0 { break }; a[i] = s[:m]; s = s[m+1:]\<close>,
  closed by \<^verbatim>\<open>a[i] = s\<close>.\<close>

function genSplit :: "string \<Rightarrow> char \<Rightarrow> string list" where
  "genSplit s sep =
     (if sep \<in> set s
      then (let m = length (takeWhile (\<lambda>x. x \<noteq> sep) s)
            in take m s # genSplit (drop (m + 1) s) sep)
      else [s])"
  by pat_completeness auto
termination
  apply (relation "measure (\<lambda>(s, sep). length s)")
   apply simp
  apply (case_tac s)
   apply simp_all
  done

section \<open>The program's data and its environment\<close>

text \<open>
  Go errors are values.  \<open>OSError\<close> stands for an error handed back by the operating
  system or by \<^verbatim>\<open>llapi\<close> (identified by a number), \<open>Errorf\<close> for an error built
  with \<^verbatim>\<open>fmt.Errorf\<close> (its formatted message).
\<close>

datatype go_error = OSError nat | Errorf string

text \<open>A Go panic: \<^verbatim>\<open>panic("...")\<close> with its message, or the run-time panic
  \<^verbatim>\<open>index out of range [i] with length n\<close>.\<close>

datatype go_panic = PanicString string | IndexOutOfRange nat nat

text \<open>The outcome of a call that can panic.\<close>

datatype 'a run = Returns 'a | Panics go_panic

text \<open>\<^verbatim>\<open>syscall.Stat_t\<close> (only the field the program reads) and \<^verbatim>\<open>os.FileInfo\<close>:
  \<open>Sys\<close> is \<open>None\<close> when \<^verbatim>\<open>fi.Sys().(*syscall.Stat_t)\<close> does not hold.\<close>

record Stat_t =
  Dev :: "64 word"

record FileInfo =
  IsDir :: bool
  Sys :: "Stat_t option"

text \<open>\<^verbatim>\<open>status.LustreClient\<close>, as \<^verbatim>\<open>MountID\<close> fills it.\<close>

record LustreClient =
  FsName :: string
  ClientID :: string

text \<open>
  What the program asks of its surroundings: the file system (\<^verbatim>\<open>os.Lstat\<close>,
  \<^verbatim>\<open>os.Open\<close>), the identifier lookup \<^verbatim>\<open>LookupFid\<close> of this package, the
  predicate \<^verbatim>\<open>Fid.IsDotLustre\<close> and the \<^verbatim>\<open>llapi\<close> calls.  None of them is
  in \<^verbatim>\<open>fs/util.go\<close>; they are parameters, and \<open>'fid\<close> is the type of file
  identifiers.  The first argument of \<open>os_Open\<close> is the number of \<^verbatim>\<open>os.Open\<close>
  calls made before, so that an open may fail once and succeed later; a file is
  its descriptor.
\<close>

record 'fid world =
  os_Lstat :: "string \<Rightarrow> go_error + FileInfo"
  LookupFid :: "string \<Rightarrow> go_error + 'fid"
  IsDotLustre :: "'fid \<Rightarrow> bool"
  llapi_GetName :: "string \<Rightarrow> go_error + string"
  os_Open :: "nat \<Rightarrow> string \<Rightarrow> go_error + int"
  llapi_GetMdtIndexByFid :: "int \<Rightarrow> 'fid \<Rightarrow> go_error + int"

section \<open>\<^verbatim>\<open>MountID\<close>\<close>

text \<open>\<^verbatim>\<open>MountID\<close> returns a pointer and an error; the pointer is \<open>None\<close> for \<^verbatim>\<open>nil\<close>.
  The index expressions \<^verbatim>\<open>elem[0]\<close> and \<^verbatim>\<open>elem[1]\<close> are evaluated in this order and
  each panics when the index is not below the length.\<close>

definition MountID :: "'fid world \<Rightarrow> string \<Rightarrow> (LustreClient option \<times> go_error option) run" where
  "MountID w mountPath =
     (case llapi_GetName w mountPath of
        Inl err \<Rightarrow> Returns (None, Some err)
      | Inr ident \<Rightarrow>
          (let elem = genSplit ident (CHR ''-'')
           in if \<not> 0 < length elem then Panics (IndexOutOfRange 0 (length elem))
              else if \<not> 1 < length elem then Panics (IndexOutOfRange 1 (length elem))
              else Returns (Some \<lparr>FsName = elem ! 0, ClientID = elem ! 1\<rparr>, None)))"

section \<open>The root walker\<close>

text \<open>
  The walker only reads the file system.  One call sees one file system: the
  answers of \<^verbatim>\<open>os.Lstat\<close> and \<^verbatim>\<open>LookupFid\<close> are functions of the path alone.
\<close>

text \<open>\<^verbatim>\<open>isDotLustre\<close>.\<close>

definition isDotLustre :: "'fid world \<Rightarrow> string \<Rightarrow> bool" where
  "isDotLustre w dir =
     (case os_Lstat w dir of
        Inl err \<Rightarrow> False
      | Inr fi \<Rightarrow>
          if IsDir fi then
            (case LookupFid w dir of
               Inl err \<Rightarrow> False
             | Inr fid \<Rightarrow> if IsDotLustre w fid then True else False)
          else False)"

text \<open>\<^verbatim>\<open>rootDevice\<close>: the device of the \<^verbatim>\<open>Stat_t\<close>, or \<^verbatim>\<open>panic("no stat available")\<close>.\<close>

definition rootDevice :: "FileInfo \<Rightarrow> 64 word run" where
  "rootDevice fi =
     (case Sys fi of
        Some stat \<Rightarrow> Returns (Dev stat)
      | None \<Rightarrow> Panics (PanicString ''no stat available''))"

text \<open>\<^verbatim>\<open>findRoot\<close> recurses on \<^verbatim>\<open>path.Dir(pathname)\<close>; \<open>None\<close> is a call that
  never returns.\<close>

partial_function (option) findRoot :: "'fid world \<Rightarrow> 64 word \<Rightarrow> string \<Rightarrow> string run option" where
  "findRoot w dev pathname =
     (let parent = Dir pathname
      in case os_Lstat w parent of
           Inl err \<Rightarrow> Some (Returns [])
         | Inr fi \<Rightarrow>
             (case rootDevice fi of
                Panics pn \<Rightarrow> Some (Panics pn)
              | Returns d \<Rightarrow>
                  if d \<noteq> dev \<or> pathname = ''/'' then
                    (if isDotLustre w (Join [pathname, ''.lustre''])
                     then Some (Returns pathname)
                     else Some (Returns []))
                  else findRoot w dev parent))"

text \<open>\<^verbatim>\<open>MountRoot\<close> returns a \<^verbatim>\<open>RootDir\<close> (a string) and an error (\<open>None\<close> is \<^verbatim>\<open>nil\<close>).\<close>

definition MountRoot :: "'fid world \<Rightarrow> string \<Rightarrow> (string \<times> go_error option) run option" where
  "MountRoot w p =
     (case os_Lstat w p of
        Inl err \<Rightarrow> Some (Returns ([], Some err))
      | Inr fi \<Rightarrow>
          (case rootDevice fi of
             Panics pn \<Rightarrow> Some (Panics pn)
           | Returns dev \<Rightarrow>
               (case findRoot w dev p of
                  None \<Rightarrow> None
                | Some (Panics pn) \<Rightarrow> Some (Panics pn)
                | Some (Returns mnt) \<Rightarrow>
                    if mnt = [] then
                      Some (Returns ([], Some (Errorf (p @ '' not a Lustre filesystem''))))
                    else Some (Returns (mnt, None)))))"

text \<open>\<^verbatim>\<open>findRelPath\<close>; \<^verbatim>\<open>append([]string{path.Base(pathname)}, relPath...)\<close> puts the
  last component of \<open>pathname\<close> in front of \<open>relPath\<close>.\<close>

partial_function (option) findRelPath ::
    "'fid world \<Rightarrow> 64 word \<Rightarrow> string \<Rightarrow> string list \<Rightarrow> (string \<times> string) run option" where
  "findRelPath w dev pathname relPath =
     (let parent = Dir pathname
      in case os_Lstat w parent of
           Inl err \<Rightarrow> Some (Returns ([], []))
         | Inr fi \<Rightarrow>
             (case rootDevice fi of
                Panics pn \<Rightarrow> Some (Panics pn)
              | Returns d \<Rightarrow>
                  if d \<noteq> dev \<or> pathname = ''/'' then
                    (if isDotLustre w (Join [pathname, ''.lustre''])
                     then Some (Returns (pathname, Join relPath))
                     else Some (Returns ([], [])))
                  else findRelPath w dev parent ([Base pathname] @ relPath)))"

text \<open>\<^verbatim>\<open>MountRelPath\<close>.\<close>

definition MountRelPath ::
    "'fid world \<Rightarrow> string \<Rightarrow> (string \<times> string \<times> go_error option) run option" where
  "MountRelPath w pathname0 =
     (let pathname = filepath_Clean pathname0
      in case os_Lstat w pathname of
           Inl err \<Rightarrow> Some (Returns ([], [], Some err))
         | Inr fi \<Rightarrow>
             (case rootDevice fi of
                Panics pn \<Rightarrow> Some (Panics pn)
              | Returns dev \<Rightarrow>
                  (case findRelPath w dev pathname [] of
                     None \<Rightarrow> None
                   | Some (Panics pn) \<Rightarrow> Some (Panics pn)
                   | Some (Returns (root, relPath)) \<Rightarrow>
                       if root = [] then
                         Some (Returns ([], [], Some (Errorf (pathname @ '' not a Lustre filesystem''))))
                       else Some (Returns (root, relPath, None)))))"

text \<open>\<^verbatim>\<open>RootDir.Join\<close>.\<close>

definition RootDir_Join :: "string \<Rightarrow> string list \<Rightarrow> string" where
  "RootDir_Join root args = Join [root, Join args]"

text \<open>
  The pathnames the walk of \<^verbatim>\<open>findRoot\<close> and \<^verbatim>\<open>findRelPath\<close> visits from \<open>p\<close>
  with device \<open>dev\<close>: \<open>p\<close> itself, and the parent of a visited pathname
  when the code takes the recursive call there (the parent can be stat-ed, is
  on device \<open>dev\<close>, and the pathname is not \<^verbatim>\<open>/\<close>).
\<close>

inductive walk_reaches :: "'fid world \<Rightarrow> 64 word \<Rightarrow> string \<Rightarrow> string \<Rightarrow> bool"
  for w :: "'fid world" and dev :: "64 word" and p :: string where
  start: "walk_reaches w dev p p"
| step: "walk_reaches w dev p x \<Longrightarrow> os_Lstat w (Dir x) = Inr fi \<Longrightarrow>
         rootDevice fi = Returns dev \<Longrightarrow> x \<noteq> ''/'' \<Longrightarrow> walk_reaches w dev p (Dir x)"

code_pred walk_reaches .

section \<open>The mount handle cache\<close>

text \<open>
  \<^verbatim>\<open>mountDir\<close>.  The field \<open>md_f\<close> is the \<^verbatim>\<open>*os.File\<close> (\<open>None\<close> is \<^verbatim>\<open>nil\<close>, a file
  is its descriptor).  The \<^verbatim>\<open>sync.Mutex\<close> has no field here: with a single
  thread \<^verbatim>\<open>Lock\<close> and \<^verbatim>\<open>Unlock\<close> change nothing that the program can observe.
\<close>

record mountDir =
  md_path :: string
  md_opened :: bool
  md_f :: "int option"

text \<open>
  The mutable state: the \<^verbatim>\<open>mountDir\<close> objects allocated so far (a \<^verbatim>\<open>*mountDir\<close> is
  an index into \<open>heap\<close>), the package variable \<^verbatim>\<open>openMount\<close>, and a log of the
  \<^verbatim>\<open>os.Open\<close> calls made, each with the path and whether it succeeded.
\<close>

record state =
  heap :: "mountDir list"
  openMount :: "string \<rightharpoonup> nat"
  open_calls :: "(string \<times> bool) list"

text \<open>The state after \<^verbatim>\<open>init()\<close>.\<close>

definition init_state :: state where
  "init_state = \<lparr>heap = [], openMount = Map.empty, open_calls = []\<rparr>"

text \<open>\<^verbatim>\<open>(*mountDir).open\<close>; it returns the error (\<open>None\<close> is \<^verbatim>\<open>nil\<close>).\<close>

definition mountDir_open :: "'fid world \<Rightarrow> state \<Rightarrow> nat \<Rightarrow> go_error option \<times> state" where
  "mountDir_open w s m =
     (if \<not> md_opened (heap s ! m) then
        (case os_Open w (length (open_calls s)) (md_path (heap s ! m)) of
           Inl err \<Rightarrow>
             (Some err, s\<lparr>open_calls := open_calls s @ [(md_path (heap s ! m), False)]\<rparr>)
         | Inr f \<Rightarrow>
             (None, s\<lparr>heap := (heap s)[m := (heap s ! m)\<lparr>md_f := Some f, md_opened := True\<rparr>],
                      open_calls := open_calls s @ [(md_path (heap s ! m), True)]\<rparr>))
      else (None, s))"

text \<open>\<^verbatim>\<open>(*os.File).Fd\<close> converted to \<^verbatim>\<open>int\<close>; on a \<^verbatim>\<open>nil\<close> file \<^verbatim>\<open>Fd\<close> returns
  \<^verbatim>\<open>^uintptr(0)\<close>, which is \<open>-1\<close> as an \<^verbatim>\<open>int\<close>.\<close>

definition File_Fd :: "int option \<Rightarrow> int" where
  "File_Fd f = (case f of None \<Rightarrow> - 1 | Some fd \<Rightarrow> fd)"

text \<open>\<^verbatim>\<open>(*mountDir).GetMdt\<close>.\<close>

definition mountDir_GetMdt ::
    "'fid world \<Rightarrow> state \<Rightarrow> nat \<Rightarrow> 'fid \<Rightarrow> (int \<times> go_error option) \<times> state" where
  "mountDir_GetMdt w s m fid =
     (let (err, s1) = (if \<not> md_opened (heap s ! m) then mountDir_open w s m else (None, s))
      in case err of
           Some e \<Rightarrow> ((0, Some e), s1)
         | None \<Rightarrow>
             (case llapi_GetMdtIndexByFid w (File_Fd (md_f (heap s1 ! m))) fid of
                Inl e \<Rightarrow> ((0, Some e), s1)
              | Inr mdtIndex \<Rightarrow> ((mdtIndex, None), s1)))"

text \<open>\<^verbatim>\<open>getOpenMount\<close>: the handle of \<open>root\<close>, allocated and registered when the
  map has none.\<close>

definition getOpenMount :: "state \<Rightarrow> string \<Rightarrow> nat \<times> state" where
  "getOpenMount s root =
     (case openMount s root of
        Some mnt \<Rightarrow> (mnt, s)
      | None \<Rightarrow>
          (length (heap s),
           s\<lparr>heap := heap s @ [\<lparr>md_path = root, md_opened = False, md_f = None\<rparr>],
             openMount := (openMount s)(root \<mapsto> length (heap s))\<rparr>))"

text \<open>\<^verbatim>\<open>GetMdt\<close>.\<close>

definition GetMdt ::
    "'fid world \<Rightarrow> state \<Rightarrow> string \<Rightarrow> 'fid \<Rightarrow> (int \<times> go_error option) \<times> state" where
  "GetMdt w s root fid = (let (mnt, s1) = getOpenMount s root in mountDir_GetMdt w s1 mnt fid)"

text \<open>A single thread making a sequence of \<^verbatim>\<open>GetMdt\<close> calls, each with its root and
  file identifier; the state after the last one.\<close>

fun GetMdt_calls :: "'fid world \<Rightarrow> state \<Rightarrow> (string \<times> 'fid) list \<Rightarrow> state" where
  "GetMdt_calls w s [] = s"
| "GetMdt_calls w s ((root, fid) # calls) = GetMdt_calls w (snd (GetMdt w s root fid)) calls"

text \<open>The number of \<^verbatim>\<open>os.Open\<close> calls on \<open>root\<close> in a log: all of them, and the
  successful ones.\<close>

definition opens_of :: "string \<Rightarrow> (string \<times> bool) list \<Rightarrow> nat" where
  "opens_of root log = length (filter (\<lambda>(p, ok). p = root) log)"

definition successful_opens_of :: "string \<Rightarrow> (string \<times> bool) list \<Rightarrow> nat" where
  "successful_opens_of root log = length (filter (\<lambda>(p, ok). p = root \<and> ok) log)"

text \<open>Whether the handle registered for \<open>root\<close> is marked opened.\<close>

definition handle_opened :: "state \<Rightarrow> string \<Rightarrow> bool" where
  "handle_opened s root =
     (case openMount s root of None \<Rightarrow> False | Some mnt \<Rightarrow> md_opened (heap s ! mnt))"

text \<open>What holds of every state the calls can reach: a registered handle is an
  allocated object carrying its root, and a root has had one successful
  \<^verbatim>\<open>os.Open\<close> when its handle is marked opened and none otherwise.\<close>

definition cache_inv :: "state \<Rightarrow> bool" where
  "cache_inv s \<longleftrightarrow>
     (\<forall>root m. openMount s root = Some m \<longrightarrow> m < length (heap s) \<and> md_path (heap s ! m) = root) \<and>
     (\<forall>root. successful_opens_of root (open_calls s) = (if handle_opened s root then 1 else 0))"

text \<open>The descriptor stored in an opened handle is the one that the successful
  \<^verbatim>\<open>os.Open\<close> of its root returned; the \<open>k\<close>-th entry of the log is the call
  \<open>os_Open w k\<close>.\<close>

definition descriptor_inv :: "'fid world \<Rightarrow> state \<Rightarrow> bool" where
  "descriptor_inv w s \<longleftrightarrow>
     (\<forall>root m. openMount s root = Some m \<and> md_opened (heap s ! m) \<longrightarrow>
        (\<exists>k f. k < length (open_calls s) \<and> open_calls s ! k = (root, True) \<and>
               os_Open w k root = Inr f \<and> md_f (heap s ! m) = Some f))"

section \<open>Notions for stating and proving the properties\<close>

text \<open>The components of a path: the non-empty pieces between its slashes, in order.\<close>

definition tokens :: "string \<Rightarrow> string list" where
  "tokens s = filter (\<lambda>t. t \<noteq> []) (genSplit s (CHR ''/''))"

text \<open>A string without a slash.\<close>

definition slashfree :: "string \<Rightarrow> bool" where
  "slashfree t \<longleftrightarrow> CHR ''/'' \<notin> set t"

text \<open>A component that \<^verbatim>\<open>path.Clean\<close> keeps as it is: not empty, without a slash, and
  neither \<^verbatim>\<open>.\<close> nor \<^verbatim>\<open>..\<close>.\<close>

definition normal :: "string \<Rightarrow> bool" where
  "normal t \<longleftrightarrow> t \<noteq> [] \<and> CHR ''/'' \<notin> set t \<and> t \<noteq> ''.'' \<and> t \<noteq> ''..''"

text \<open>The output buffer of \<^verbatim>\<open>path.Clean\<close> seen as a stack of components, the last one
  written on top (first in the list).  A stack in normal form holds kept
  components above leading \<^verbatim>\<open>..\<close> components, and no \<^verbatim>\<open>..\<close> at all when the
  path is rooted.\<close>

fun nf :: "bool \<Rightarrow> string list \<Rightarrow> bool" where
  "nf b [] = True"
| "nf b (t # st) = (if t = ''..'' then \<not> b \<and> (\<forall>u\<in>set st. u = ''..'') else normal t \<and> nf b st)"

text \<open>The bytes of the buffer for a stack: the components joined by slashes, after
  the leading slash of a rooted path.\<close>

fun buf :: "bool \<Rightarrow> string list \<Rightarrow> string" where
  "buf b [] = (if b then ''/'' else [])"
| "buf b [t] = (if b then ''/'' else []) @ t"
| "buf b (t # u # st) = buf b (u # st) @ ''/'' @ t"

text \<open>The value of \<^verbatim>\<open>dotdot\<close> for a stack: the length of the part of the buffer that
  a \<^verbatim>\<open>..\<close> may not remove.\<close>

definition dotdot_of :: "bool \<Rightarrow> string list \<Rightarrow> nat" where
  "dotdot_of b st = (if b then 1 else length (buf False (dropWhile (\<lambda>t. t \<noteq> ''..'') st)))"

text \<open>What one component does to the stack.\<close>

definition clean_step :: "bool \<Rightarrow> string list \<Rightarrow> string \<Rightarrow> string list" where
  "clean_step b st t =
     (if t = ''.'' then st
      else if t = ''..'' then
        (case st of
           [] \<Rightarrow> if b then [] else [''..'']
         | x # st' \<Rightarrow> if x = ''..'' then ''..'' # st else st')
      else t # st)"

text \<open>\<^verbatim>\<open>rooted := path[0] == '/'\<close>, false for the empty path.\<close>

definition rooted :: "string \<Rightarrow> bool" where
  "rooted p \<longleftrightarrow> p \<noteq> [] \<and> hd p = CHR ''/''"

text \<open>The stack after all components of a path.\<close>

definition norm_stack :: "bool \<Rightarrow> string \<Rightarrow> string list" where
  "norm_stack b p = foldl (clean_step b) [] (tokens p)"

text \<open>The result of \<^verbatim>\<open>path.Clean\<close> for a final stack: the buffer, or \<^verbatim>\<open>.\<close> when it
  is empty.\<close>

definition render :: "bool \<Rightarrow> string list \<Rightarrow> string" where
  "render b st = (if \<not> b \<and> st = [] then ''.'' else buf b st)"

text \<open>Ancestors in the sense of the code: \<open>ancestor_or_equal r p\<close> holds when \<open>r\<close>
  is \<open>p\<close> or is reached from \<open>p\<close> by taking \<^verbatim>\<open>path.Dir\<close>, the parent directory, once
  or more.\<close>

inductive ancestor_or_equal :: "string \<Rightarrow> string \<Rightarrow> bool" where
  self: "ancestor_or_equal p p"
| parent: "ancestor_or_equal r (Dir p) \<Longrightarrow> ancestor_or_equal r p"

code_pred ancestor_or_equal .

text \<open>Whether the walk takes the recursive call at \<open>x\<close>.\<close>

definition walk_continues :: "'fid world \<Rightarrow> 64 word \<Rightarrow> string \<Rightarrow> bool" where
  "walk_continues w dev x =
     (case os_Lstat w (Dir x) of
        Inl err \<Rightarrow> False
      | Inr fi \<Rightarrow> rootDevice fi = Returns dev \<and> x \<noteq> ''/'')"

text \<open>
  The notions of the specification, stated on the file system itself and not on
  what the walk does.  An absolute path is written from its components;
  \<open>path_down_to p\<close> lists \<^verbatim>\<open>/\<close>, then every ancestor directory of \<open>p\<close>, then \<open>p\<close>
  itself, by their components.
\<close>

definition abs_path :: "string list \<Rightarrow> string" where
  "abs_path cs = (if cs = [] then ''/'' else concat (map (\<lambda>c. CHR ''/'' # c) cs))"

definition path_down_to :: "string \<Rightarrow> string list" where
  "path_down_to p = map (\<lambda>k. abs_path (take k (tokens p))) [0..<Suc (length (tokens p))]"

text \<open>The device identifier of an entry, when it can be stat-ed and the platform
  metadata carries one; an entry is stat-able when it has one.\<close>

definition device_of :: "'fid world \<Rightarrow> string \<Rightarrow> 64 word option" where
  "device_of w x = (case os_Lstat w x of Inl err \<Rightarrow> None | Inr fi \<Rightarrow> map_option Dev (Sys fi))"

definition statable :: "'fid world \<Rightarrow> string \<Rightarrow> bool" where
  "statable w x \<longleftrightarrow> device_of w x \<noteq> None"

text \<open>The entry named \<^verbatim>\<open>.lustre\<close> in a directory, and whether it proves the directory
  to be the root of a Lustre filesystem: it exists and is a directory, its
  identifier can be looked up, and the identifier is the one of \<^verbatim>\<open>.lustre\<close>.\<close>

definition sentinel_of :: "string \<Rightarrow> string" where
  "sentinel_of x = (if x = ''/'' then ''/.lustre'' else x @ ''/.lustre'')"

definition carries_sentinel :: "'fid world \<Rightarrow> string \<Rightarrow> bool" where
  "carries_sentinel w x =
     (case os_Lstat w (sentinel_of x) of
        Inl err \<Rightarrow> False
      | Inr fi \<Rightarrow> IsDir fi \<and>
          (case LookupFid w (sentinel_of x) of Inl err \<Rightarrow> False | Inr fid \<Rightarrow> IsDotLustre w fid))"

text \<open>\<open>p\<close> lies in the Lustre filesystem mounted at the \<open>k\<close>-th entry of
  \<open>path_down_to p\<close> when that directory carries the sentinel and every entry from
  it down to \<open>p\<close> is on the device of \<open>p\<close>.  A path is outside any mount when
  it lies in none; its ancestor directories are the entries above it.\<close>

definition inside_mount :: "'fid world \<Rightarrow> string \<Rightarrow> nat \<Rightarrow> bool" where
  "inside_mount w p k \<longleftrightarrow>
     carries_sentinel w (path_down_to p ! k) \<and>
     list_all (\<lambda>x. device_of w x = device_of w p) (drop k (path_down_to p))"

definition outside_any_mount :: "'fid world \<Rightarrow> string \<Rightarrow> bool" where
  "outside_any_mount w p \<longleftrightarrow>
     list_all (\<lambda>k. \<not> inside_mount w p k) [0..<length (path_down_to p)]"

definition ancestors_statable :: "'fid world \<Rightarrow> string \<Rightarrow> bool" where
  "ancestors_statable w p \<longleftrightarrow> list_all (statable w) (butlast (path_down_to p))"

section \<open>Sample environments\<close>

text \<open>Small concrete environments on which the theorems below are exercised.  File
  identifiers are numbers; identifier 2 is the one of the \<^verbatim>\<open>.lustre\<close> directory.\<close>

definition dir_on :: "64 word \<Rightarrow> FileInfo" where
  "dir_on d = \<lparr>IsDir = True, Sys = Some \<lparr>Dev = d\<rparr>\<rparr>"

definition file_on :: "64 word \<Rightarrow> FileInfo" where
  "file_on d = \<lparr>IsDir = False, Sys = Some \<lparr>Dev = d\<rparr>\<rparr>"

definition lookup_in :: "(string \<times> 'a) list \<Rightarrow> string \<Rightarrow> go_error + 'a" where
  "lookup_in tbl p = (case map_of tbl p of None \<Rightarrow> Inl (OSError 2) | Some v \<Rightarrow> Inr v)"

text \<open>A Lustre filesystem mounted at \<^verbatim>\<open>/mnt/fs\<close> (device 2) under a root on device 1,
  and \<^verbatim>\<open>/tmp\<close> on device 3 with a plain file named \<^verbatim>\<open>.lustre\<close>.  A path that is not
  listed does not exist (error 2).\<close>

definition demo_world :: "nat world" where
  "demo_world =
     \<lparr>os_Lstat = lookup_in
        [(''/'', dir_on 1), (''/mnt'', dir_on 1), (''/mnt/fs'', dir_on 2),
         (''/mnt/fs/.lustre'', dir_on 2), (''/mnt/fs/a'', dir_on 2),
         (''/mnt/fs/a/b'', dir_on 2), (''/mnt/fs/a/b/c'', file_on 2),
         (''/tmp'', dir_on 3), (''/tmp/unrelated'', file_on 3),
         (''/tmp/.lustre'', file_on 3)],
      LookupFid = lookup_in [(''/mnt/fs/.lustre'', 2), (''/mnt/fs/a'', 5), (''/mnt/fs/a/b/c'', 7)],
      IsDotLustre = (\<lambda>fid. fid = 2),
      llapi_GetName = lookup_in [(''/mnt/fs'', ''lustre-ffff8800''), (''/mnt'', ''nodash'')],
      os_Open = (\<lambda>n. lookup_in [(''/mnt/fs'', 3)]),
      llapi_GetMdtIndexByFid = (\<lambda>fd fid. if fd = 3 then Inr 0 else Inl (OSError 9))\<rparr>"

text \<open>A directory whose \<^verbatim>\<open>FileInfo\<close> carries no \<^verbatim>\<open>Stat_t\<close>.\<close>

definition nostat_world :: "nat world" where
  "nostat_world = demo_world\<lparr>os_Lstat := lookup_in
     [(''/'', dir_on 1), (''/proc'', \<lparr>IsDir = True, Sys = None\<rparr>), (''/proc/x'', file_on 4)]\<rparr>"

text \<open>A Lustre filesystem mounted at \<^verbatim>\<open>/\<close>.\<close>

definition rootfs_world :: "nat world" where
  "rootfs_world = demo_world\<lparr>os_Lstat := lookup_in
     [(''/'', dir_on 9), (''/.lustre'', dir_on 9), (''/home'', dir_on 9)],
     LookupFid := lookup_in [(''/.lustre'', 2)]\<rparr>"

text \<open>A directory whose parent cannot be stat-ed (\<^verbatim>\<open>EACCES\<close>).\<close>

definition noaccess_world :: "nat world" where
  "noaccess_world = demo_world\<lparr>os_Lstat :=
     (\<lambda>p. if p = ''/srv'' then Inl (OSError 13)
          else lookup_in [(''/srv/data'', dir_on 1), (''/srv/data/f'', file_on 1)] p)\<rparr>"

text \<open>A relative path: the working directory and a file in it, on one device.\<close>

definition relative_world :: "nat world" where
  "relative_world = demo_world\<lparr>os_Lstat := lookup_in [(''.'', dir_on 1), (''a'', file_on 1)]\<rparr>"

text \<open>The Lustre filesystem at \<^verbatim>\<open>/mnt/fs\<close> with another filesystem (device 5) mounted
  inside it at \<^verbatim>\<open>/mnt/fs/scratch\<close>, and a symbolic link \<^verbatim>\<open>/mnt/fs/l\<close> to a directory
  of a third filesystem whose parent is on device 7: \<^verbatim>\<open>/mnt/fs/l/..\<close> is that
  parent, since the kernel follows the link.\<close>

definition mixed_world :: "nat world" where
  "mixed_world = demo_world\<lparr>os_Lstat := lookup_in
     [(''/'', dir_on 1), (''/mnt'', dir_on 1), (''/mnt/fs'', dir_on 2),
      (''/mnt/fs/.lustre'', dir_on 2),
      (''/mnt/fs/scratch'', dir_on 5), (''/mnt/fs/scratch/x'', file_on 5),
      (''/mnt/fs/l'', file_on 2), (''/mnt/fs/l/..'', dir_on 7)]\<rparr>"

text \<open>A process whose working directory is \<^verbatim>\<open>/mnt/fs/a\<close>, inside the Lustre
  filesystem: \<^verbatim>\<open>.\<close> is that directory and \<^verbatim>\<open>b\<close> is the file \<^verbatim>\<open>/mnt/fs/a/b\<close>.\<close>

definition cwd_world :: "nat world" where
  "cwd_world = demo_world\<lparr>os_Lstat := lookup_in
     [(''/'', dir_on 1), (''/mnt'', dir_on 1), (''/mnt/fs'', dir_on 2),
      (''/mnt/fs/.lustre'', dir_on 2), (''/mnt/fs/a'', dir_on 2), (''/mnt/fs/a/b'', file_on 2),
      (''.'', dir_on 2), (''b'', file_on 2)]\<rparr>"

text \<open>An \<^verbatim>\<open>os.Open\<close> that fails twice (\<^verbatim>\<open>EMFILE\<close>) before it succeeds.\<close>

definition flaky_world :: "nat world" where
  "flaky_world = demo_world\<lparr>os_Open :=
     (\<lambda>n. if n < 2 then (\<lambda>p. Inl (OSError 24)) else lookup_in [(''/mnt/fs'', 3)])\<rparr>"

section \<open>Facts about the sample environments\<close>

lemma demo_lstat [simp]:
  "os_Lstat demo_world ''/nonexistent'' = Inl (OSError 2)"
  "os_Lstat demo_world ''/tmp/.lustre'' = Inr (file_on 3)"
  "os_Lstat demo_world ''/mnt/fs/a/b/c'' = Inr (file_on 2)"
  "os_Lstat demo_world ''/mnt/fs/a'' = Inr (dir_on 2)"
  "os_Lstat demo_world ''/mnt/fs/.lustre'' = Inr (dir_on 2)"
  by (simp_all add: demo_world_def lookup_in_def)

lemma demo_GetName:
  "llapi_GetName demo_world ''/mnt'' = Inr ''nodash''"
  "llapi_GetName demo_world ''/mnt/fs'' = Inr ''lustre-ffff8800''"
  by (simp_all add: demo_world_def lookup_in_def)

section \<open>Sentinel validation: \<^verbatim>\<open>isDotLustre\<close>\<close>

lemma isDotLustre_iff:
  "isDotLustre w dir \<longleftrightarrow>
     (\<exists>fi fid. os_Lstat w dir = Inr fi \<and> IsDir fi \<and> LookupFid w dir = Inr fid \<and> IsDotLustre w fid)"
  by (auto simp: isDotLustre_def split: sum.splits)

text \<open>
  Claim C8.  Whatever goes wrong while a directory is checked as sentinel (its
  \<^verbatim>\<open>Lstat\<close> fails, it is not a directory, \<^verbatim>\<open>LookupFid\<close> fails, or the identifier
  is not the one of \<^verbatim>\<open>.lustre\<close>), \<^verbatim>\<open>isDotLustre\<close> answers \<open>False\<close>.  Its result
  is a plain boolean: there is no error and no panic to surface.
\<close>

theorem isDotLustre_failure_is_negative:
  "(\<exists>err. os_Lstat w dir = Inl err) \<or>
   (\<exists>fi. os_Lstat w dir = Inr fi \<and> \<not> IsDir fi) \<or>
   (\<exists>err. LookupFid w dir = Inl err) \<or>
   (\<exists>fid. LookupFid w dir = Inr fid \<and> \<not> IsDotLustre w fid)
   \<Longrightarrow> isDotLustre w dir = False"
  by (auto simp: isDotLustre_def split: sum.splits)

theorem isDotLustre_failure_is_negative_witness:
  "isDotLustre demo_world ''/nonexistent'' = False \<and>
   isDotLustre demo_world ''/tmp/.lustre'' = False \<and>
   isDotLustre demo_world ''/mnt/fs/a/b'' = False \<and>
   isDotLustre demo_world ''/mnt/fs/a'' = False"
proof -
  have a: "\<exists>err. os_Lstat demo_world ''/nonexistent'' = Inl err" by simp
  have b: "\<exists>fi. os_Lstat demo_world ''/tmp/.lustre'' = Inr fi \<and> \<not> IsDir fi"
    by (simp add: file_on_def)
  have c: "\<exists>err. LookupFid demo_world ''/mnt/fs/a/b'' = Inl err"
    by (simp add: demo_world_def lookup_in_def)
  have d: "\<exists>fid. LookupFid demo_world ''/mnt/fs/a'' = Inr fid \<and> \<not> IsDotLustre demo_world fid"
    by (simp add: demo_world_def lookup_in_def)
  show ?thesis
    using isDotLustre_failure_is_negative [of demo_world "''/nonexistent''"] a
      isDotLustre_failure_is_negative [of demo_world "''/tmp/.lustre''"] b
      isDotLustre_failure_is_negative [of demo_world "''/mnt/fs/a/b''"] c
      isDotLustre_failure_is_negative [of demo_world "''/mnt/fs/a''"] d
    by blast
qed

section \<open>\<^verbatim>\<open>MountID\<close> and names without a separator\<close>

declare genSplit.simps [simp del]

lemma genSplit_no_sep: "sep \<notin> set s \<Longrightarrow> genSplit s sep = [s]"
  by (subst genSplit.simps) simp

lemma genSplit_sep:
  "sep \<in> set s \<Longrightarrow>
   genSplit s sep =
     takeWhile (\<lambda>x. x \<noteq> sep) s # genSplit (tl (dropWhile (\<lambda>x. x \<noteq> sep) s)) sep"
proof -
  assume "sep \<in> set s"
  moreover have "take (length (takeWhile (\<lambda>x. x \<noteq> sep) s)) s = takeWhile (\<lambda>x. x \<noteq> sep) s"
    by (metis append_eq_conv_conj takeWhile_dropWhile_id)
  moreover have "drop (length (takeWhile (\<lambda>x. x \<noteq> sep) s) + 1) s = tl (dropWhile (\<lambda>x. x \<noteq> sep) s)"
    by (metis Suc_eq_plus1 append_eq_conv_conj drop_Suc takeWhile_dropWhile_id tl_drop)
  ultimately show ?thesis
    by (subst genSplit.simps) (simp add: Let_def)
qed

lemma genSplit_nonempty: "genSplit s sep \<noteq> []"
  by (subst genSplit.simps) (simp add: Let_def)

lemma genSplit_length_ge2: "2 \<le> length (genSplit s sep) \<longleftrightarrow> sep \<in> set s"
proof (cases "sep \<in> set s")
  case True
  have "genSplit (tl (dropWhile (\<lambda>x. x \<noteq> sep) s)) sep \<noteq> []" by (rule genSplit_nonempty)
  then have "1 \<le> length (genSplit (tl (dropWhile (\<lambda>x. x \<noteq> sep) s)) sep)"
    by (simp add: Suc_le_eq)
  with True show ?thesis by (simp add: genSplit_sep)
next
  case False
  then show ?thesis by (simp add: genSplit_no_sep)
qed

text \<open>
  Claim C10.  When \<^verbatim>\<open>llapi.GetName\<close> succeeds with a name that has no \<^verbatim>\<open>-\<close>,
  \<^verbatim>\<open>MountID\<close> panics with \<^verbatim>\<open>index out of range [1] with length 1\<close> and returns
  no error value.  Whenever it returns a client record, the name has split into
  at least two fields; the first is the filesystem name, the second the client
  identifier, and the error is \<^verbatim>\<open>nil\<close>.
\<close>

theorem MountID_without_separator_panics:
  "(\<forall>ident. llapi_GetName w mountPath = Inr ident \<and> CHR ''-'' \<notin> set ident \<longrightarrow>
      MountID w mountPath = Panics (IndexOutOfRange 1 1)) \<and>
   (\<forall>c err. MountID w mountPath = Returns (Some c, err) \<longrightarrow>
      (\<exists>ident. llapi_GetName w mountPath = Inr ident \<and>
         2 \<le> length (genSplit ident (CHR ''-'')) \<and>
         FsName c = genSplit ident (CHR ''-'') ! 0 \<and>
         ClientID c = genSplit ident (CHR ''-'') ! 1 \<and> err = None))"
proof (intro conjI allI impI)
  fix ident
  assume "llapi_GetName w mountPath = Inr ident \<and> CHR ''-'' \<notin> set ident"
  then show "MountID w mountPath = Panics (IndexOutOfRange 1 1)"
    by (simp add: MountID_def genSplit_no_sep)
next
  fix c err
  assume r: "MountID w mountPath = Returns (Some c, err)"
  then obtain ident where g: "llapi_GetName w mountPath = Inr ident"
    by (cases "llapi_GetName w mountPath") (simp_all add: MountID_def)
  from r g have "1 < length (genSplit ident (CHR ''-''))"
    by (simp add: MountID_def Let_def split: if_splits)
  moreover from r g have "c = \<lparr>FsName = genSplit ident (CHR ''-'') ! 0,
      ClientID = genSplit ident (CHR ''-'') ! 1\<rparr> \<and> err = None"
    by (simp add: MountID_def Let_def split: if_splits)
  ultimately show "\<exists>ident. llapi_GetName w mountPath = Inr ident \<and>
         2 \<le> length (genSplit ident (CHR ''-'')) \<and>
         FsName c = genSplit ident (CHR ''-'') ! 0 \<and>
         ClientID c = genSplit ident (CHR ''-'') ! 1 \<and> err = None"
    using g by auto
qed

lemma genSplit_demo: "genSplit ''lustre-ffff8800'' (CHR ''-'') = [''lustre'', ''ffff8800'']"
  by (simp add: genSplit_sep genSplit_no_sep)

theorem MountID_without_separator_panics_witness:
  "MountID demo_world ''/mnt'' = Panics (IndexOutOfRange 1 1) \<and>
   MountID demo_world ''/mnt/fs'' =
     Returns (Some \<lparr>FsName = ''lustre'', ClientID = ''ffff8800''\<rparr>, None)"
proof -
  have a: "llapi_GetName demo_world ''/mnt'' = Inr ''nodash'' \<and> CHR ''-'' \<notin> set ''nodash''"
    by (simp add: demo_GetName)
  have b: "MountID demo_world ''/mnt/fs'' =
     Returns (Some \<lparr>FsName = ''lustre'', ClientID = ''ffff8800''\<rparr>, None)"
    by (simp add: MountID_def demo_GetName genSplit_demo)
  from MountID_without_separator_panics [of demo_world "''/mnt''"] a
  have "MountID demo_world ''/mnt'' = Panics (IndexOutOfRange 1 1)" by blast
  moreover from MountID_without_separator_panics [of demo_world "''/mnt/fs''"] b
  have "\<exists>ident. llapi_GetName demo_world ''/mnt/fs'' = Inr ident \<and>
         2 \<le> length (genSplit ident (CHR ''-''))" by blast
  ultimately show ?thesis using b by simp
qed

section \<open>Missing device metadata: \<^verbatim>\<open>rootDevice\<close>\<close>

lemma findRoot_panic:
  "os_Lstat w (Dir x) = Inr fi \<Longrightarrow> rootDevice fi = Panics pn \<Longrightarrow> findRoot w dev x = Some (Panics pn)"
  by (subst findRoot.simps) (simp add: Let_def)

lemma findRelPath_panic:
  "os_Lstat w (Dir x) = Inr fi \<Longrightarrow> rootDevice fi = Panics pn \<Longrightarrow>
   findRelPath w dev x rel = Some (Panics pn)"
  by (subst findRelPath.simps) (simp add: Let_def)

text \<open>
  Claim C9.  For a file whose \<^verbatim>\<open>FileInfo\<close> carries no \<^verbatim>\<open>Stat_t\<close>, \<^verbatim>\<open>rootDevice\<close>
  panics with \<^verbatim>\<open>no stat available\<close> and returns no device; the panic ends
  \<^verbatim>\<open>MountRoot\<close>, \<^verbatim>\<open>MountRelPath\<close> and each step of the ancestor walk before any
  boundary decision is taken.
\<close>

theorem rootDevice_missing_stat_panics:
  "Sys fi = None \<Longrightarrow>
     rootDevice fi = Panics (PanicString ''no stat available'') \<and>
     (\<forall>d. rootDevice fi \<noteq> Returns d) \<and>
     (os_Lstat w p = Inr fi \<longrightarrow>
        MountRoot w p = Some (Panics (PanicString ''no stat available''))) \<and>
     (os_Lstat w (filepath_Clean p) = Inr fi \<longrightarrow>
        MountRelPath w p = Some (Panics (PanicString ''no stat available''))) \<and>
     (os_Lstat w (Dir x) = Inr fi \<longrightarrow>
        findRoot w dev x = Some (Panics (PanicString ''no stat available'')) \<and>
        findRelPath w dev x rel = Some (Panics (PanicString ''no stat available'')))"
proof -
  assume n: "Sys fi = None"
  then have r: "rootDevice fi = Panics (PanicString ''no stat available'')"
    by (simp add: rootDevice_def)
  then show ?thesis
    by (auto simp: MountRoot_def MountRelPath_def Let_def findRoot_panic findRelPath_panic)
qed

theorem rootDevice_missing_stat_panics_witness:
  "Sys \<lparr>IsDir = True, Sys = None\<rparr> = None \<and>
   MountRoot nostat_world ''/proc'' = Some (Panics (PanicString ''no stat available'')) \<and>
   findRoot nostat_world 4 ''/proc/x'' = Some (Panics (PanicString ''no stat available''))"
proof -
  have n: "Sys \<lparr>IsDir = True, Sys = None\<rparr> = None" by simp
  have l: "os_Lstat nostat_world ''/proc'' = Inr \<lparr>IsDir = True, Sys = None\<rparr>"
    by (simp add: nostat_world_def lookup_in_def)
  have d: "Dir ''/proc/x'' = ''/proc''" by code_simp
  from rootDevice_missing_stat_panics [OF n, of nostat_world "''/proc''" "''/proc/x''" 4 "[]"] l d
  show ?thesis by simp
qed

section \<open>The filesystem mounted at the OS root\<close>

lemma Dir_root: "Dir ''/'' = ''/''" by code_simp

lemma Join_root_lustre: "Join [''/'', ''.lustre''] = ''/.lustre''" by code_simp

text \<open>
  Claim C6.  When \<^verbatim>\<open>/\<close> can be stat-ed, \<^verbatim>\<open>MountRoot("/")\<close> returns after one step
  of the walk, whatever the devices are: the test \<^verbatim>\<open>pathname == "/"\<close> sends it
  to the sentinel check of \<^verbatim>\<open>/.lustre\<close>.  It returns \<^verbatim>\<open>/\<close> exactly when that
  check succeeds and the not-a-Lustre error otherwise; it neither recurses
  for ever nor reports a mounted root as missing.
\<close>

theorem MountRoot_at_OS_root:
  "os_Lstat w ''/'' = Inr fi \<Longrightarrow> Sys fi = Some st \<Longrightarrow>
     MountRoot w ''/'' =
       Some (Returns (if isDotLustre w ''/.lustre'' then (''/'', None)
                      else ([], Some (Errorf ''/ not a Lustre filesystem''))))"
proof -
  assume l: "os_Lstat w ''/'' = Inr fi" and s: "Sys fi = Some st"
  from s have r: "rootDevice fi = Returns (Dev st)" by (simp add: rootDevice_def)
  have "findRoot w (Dev st) ''/'' =
     Some (Returns (if isDotLustre w ''/.lustre'' then ''/'' else []))"
    by (subst findRoot.simps) (simp add: Let_def Dir_root Join_root_lustre l r)
  with l r show ?thesis by (simp add: MountRoot_def)
qed

theorem MountRoot_at_OS_root_witness:
  "os_Lstat rootfs_world ''/'' = Inr (dir_on 9) \<and> Sys (dir_on 9) = Some \<lparr>Dev = 9\<rparr> \<and>
   isDotLustre rootfs_world ''/.lustre'' \<and>
   MountRoot rootfs_world ''/'' = Some (Returns (''/'', None))"
proof -
  have l: "os_Lstat rootfs_world ''/'' = Inr (dir_on 9)"
    by (simp add: rootfs_world_def lookup_in_def)
  have s: "Sys (dir_on 9) = Some \<lparr>Dev = 9\<rparr>" by (simp add: dir_on_def)
  have d: "isDotLustre rootfs_world ''/.lustre''"
    by (simp add: isDotLustre_def rootfs_world_def demo_world_def lookup_in_def dir_on_def)
  from MountRoot_at_OS_root [OF l s] d l s show ?thesis by simp
qed

section \<open>One open per mount root\<close>

lemma cache_inv_init: "cache_inv init_state"
  by (simp add: cache_inv_def init_state_def successful_opens_of_def handle_opened_def)

lemma GetMdt_state:
  "snd (GetMdt w s root fid) =
     (let (m, s1) = getOpenMount s root
      in if md_opened (heap s1 ! m) then s1 else snd (mountDir_open w s1 m))"
  by (simp add: GetMdt_def mountDir_GetMdt_def Let_def split: prod.splits option.splits sum.splits)

lemma getOpenMount_inv:
  assumes "cache_inv s" and "getOpenMount s root = (m, s1)"
  shows "cache_inv s1 \<and> openMount s1 root = Some m \<and> open_calls s1 = open_calls s \<and>
         (\<forall>r. handle_opened s1 r = handle_opened s r)"
proof (cases "openMount s root")
  case (Some a)
  with assms show ?thesis by (simp add: getOpenMount_def)
next
  case None
  with assms have s1: "s1 = s\<lparr>heap := heap s @ [\<lparr>md_path = root, md_opened = False, md_f = None\<rparr>],
             openMount := (openMount s)(root \<mapsto> length (heap s))\<rparr>" and m: "m = length (heap s)"
    by (auto simp: getOpenMount_def)
  from assms(1) have bound: "\<And>r a. openMount s r = Some a \<Longrightarrow> a < length (heap s) \<and> md_path (heap s ! a) = r"
    by (simp add: cache_inv_def)
  have ho: "\<And>r. handle_opened s1 r = handle_opened s r"
    using None bound by (auto simp: s1 handle_opened_def nth_append split: option.splits)
  have b1: "\<And>r a. openMount s1 r = Some a \<Longrightarrow> a < length (heap s1) \<and> md_path (heap s1 ! a) = r"
    using bound by (auto simp: s1 nth_append split: if_splits dest: bound)
  have c1: "\<And>r. successful_opens_of r (open_calls s1) = (if handle_opened s1 r then 1 else 0)"
  proof -
    fix r
    have "successful_opens_of r (open_calls s1) = successful_opens_of r (open_calls s)"
      by (simp add: s1)
    also have "\<dots> = (if handle_opened s r then 1 else 0)"
      using assms(1) by (simp add: cache_inv_def)
    finally show "successful_opens_of r (open_calls s1) = (if handle_opened s1 r then 1 else 0)"
      by (simp add: ho)
  qed
  from b1 c1 have "cache_inv s1"
    unfolding cache_inv_def by blast
  then show ?thesis using ho by (simp add: s1 m)
qed

lemma mountDir_open_fail:
  assumes "cache_inv s" and "openMount s root = Some m" and "\<not> md_opened (heap s ! m)"
    and "os_Open w (length (open_calls s)) root = Inl err"
  shows "mountDir_open w s m = (Some err, s\<lparr>open_calls := open_calls s @ [(root, False)]\<rparr>)"
    and "cache_inv (s\<lparr>open_calls := open_calls s @ [(root, False)]\<rparr>)"
proof -
  from assms(1,2) have p: "md_path (heap s ! m) = root" by (simp add: cache_inv_def)
  with assms(3,4) show "mountDir_open w s m = (Some err, s\<lparr>open_calls := open_calls s @ [(root, False)]\<rparr>)"
    by (simp add: mountDir_open_def)
  from assms(1) show "cache_inv (s\<lparr>open_calls := open_calls s @ [(root, False)]\<rparr>)"
    by (simp add: cache_inv_def successful_opens_of_def handle_opened_def cong: option.case_cong)
qed

lemma mountDir_open_ok:
  assumes "cache_inv s" and "openMount s root = Some m" and "\<not> md_opened (heap s ! m)"
    and "os_Open w (length (open_calls s)) root = Inr f"
  defines "s' \<equiv> s\<lparr>heap := (heap s)[m := (heap s ! m)\<lparr>md_f := Some f, md_opened := True\<rparr>],
                   open_calls := open_calls s @ [(root, True)]\<rparr>"
  shows "mountDir_open w s m = (None, s')"
    and "cache_inv s'"
    and "handle_opened s' root"
    and "\<And>r. r \<noteq> root \<Longrightarrow> handle_opened s' r = handle_opened s r"
proof -
  from assms(1) have bound:
    "\<And>r a. openMount s r = Some a \<Longrightarrow> a < length (heap s) \<and> md_path (heap s ! a) = r"
    by (simp add: cache_inv_def)
  from bound [OF assms(2)] have m: "m < length (heap s)" and p: "md_path (heap s ! m) = root"
    by simp_all
  from assms(3,4) p show "mountDir_open w s m = (None, s')"
    by (simp add: mountDir_open_def s'_def)
  from m assms(2) show o: "handle_opened s' root"
    by (simp add: handle_opened_def s'_def)
  show other: "\<And>r. r \<noteq> root \<Longrightarrow> handle_opened s' r = handle_opened s r"
  proof -
    fix r assume "r \<noteq> root"
    then have "\<And>a. openMount s r = Some a \<Longrightarrow> a \<noteq> m"
      using bound p by blast
    then show "handle_opened s' r = handle_opened s r"
      by (auto simp: handle_opened_def s'_def split: option.splits)
  qed
  from assms(3) assms(2) have no: "\<not> handle_opened s root"
    by (simp add: handle_opened_def)
  have b1: "\<And>r a. openMount s' r = Some a \<Longrightarrow> a < length (heap s') \<and> md_path (heap s' ! a) = r"
  proof -
    fix r a assume "openMount s' r = Some a"
    then have a: "openMount s r = Some a" by (simp add: s'_def)
    from bound [OF a] show "a < length (heap s') \<and> md_path (heap s' ! a) = r"
      using p by (cases "a = m") (simp_all add: s'_def)
  qed
  have c1: "\<And>r. successful_opens_of r (open_calls s') = (if handle_opened s' r then 1 else 0)"
  proof -
    fix r
    from assms(1) have c: "successful_opens_of r (open_calls s) = (if handle_opened s r then 1 else 0)"
      by (simp add: cache_inv_def)
    show "successful_opens_of r (open_calls s') = (if handle_opened s' r then 1 else 0)"
    proof (cases "r = root")
      case True
      with c no o show ?thesis by (simp add: successful_opens_of_def s'_def)
    next
      case False
      with c other [OF False] show ?thesis by (simp add: successful_opens_of_def s'_def)
    qed
  qed
  from b1 c1 show "cache_inv s'" unfolding cache_inv_def by blast
qed

lemma opens_of_append [simp]:
  "opens_of r (log @ [(p, ok)]) = opens_of r log + (if p = r then 1 else 0)"
  by (simp add: opens_of_def)

lemma GetMdt_opened:
  assumes "handle_opened s root" and "openMount s root = Some m"
  shows "GetMdt w s root fid =
           ((case llapi_GetMdtIndexByFid w (File_Fd (md_f (heap s ! m))) fid of
               Inl e \<Rightarrow> (0, Some e) | Inr mdtIndex \<Rightarrow> (mdtIndex, None)), s)"
  using assms
  by (simp add: GetMdt_def getOpenMount_def mountDir_GetMdt_def handle_opened_def split: sum.splits)

lemma GetMdt_step:
  assumes inv: "cache_inv s"
  shows "cache_inv (snd (GetMdt w s root fid))" (is "cache_inv ?s'")
    and "\<And>r. handle_opened s r \<Longrightarrow>
           handle_opened (snd (GetMdt w s root fid)) r \<and>
           opens_of r (open_calls (snd (GetMdt w s root fid))) = opens_of r (open_calls s)"
    and "\<And>f. \<not> handle_opened s root \<Longrightarrow> os_Open w (length (open_calls s)) root = Inr f \<Longrightarrow>
           handle_opened (snd (GetMdt w s root fid)) root \<and>
           open_calls (snd (GetMdt w s root fid)) = open_calls s @ [(root, True)]"
proof -
  obtain m s1 where g: "getOpenMount s root = (m, s1)" by (cases "getOpenMount s root")
  from getOpenMount_inv [OF inv g]
  have inv1: "cache_inv s1" and om: "openMount s1 root = Some m"
    and log1: "open_calls s1 = open_calls s"
    and ho1: "\<And>r. handle_opened s1 r = handle_opened s r"
    by simp_all
  have st: "?s' = (if md_opened (heap s1 ! m) then s1 else snd (mountDir_open w s1 m))"
    by (simp add: GetMdt_state g)
  have hm: "handle_opened s1 root = md_opened (heap s1 ! m)"
    by (simp add: handle_opened_def om)
  have all: "cache_inv ?s' \<and>
    (\<forall>r. handle_opened s r \<longrightarrow> handle_opened ?s' r \<and>
          opens_of r (open_calls ?s') = opens_of r (open_calls s)) \<and>
    (\<forall>f. \<not> handle_opened s root \<longrightarrow> os_Open w (length (open_calls s)) root = Inr f \<longrightarrow>
          handle_opened ?s' root \<and> open_calls ?s' = open_calls s @ [(root, True)])"
  proof (cases "md_opened (heap s1 ! m)")
    case True
    with st have "?s' = s1" by simp
    with inv1 ho1 log1 hm True show ?thesis by simp
  next
    case False
    with hm ho1 have nr: "\<not> handle_opened s root" by simp
    show ?thesis
    proof (cases "os_Open w (length (open_calls s1)) root")
      case (Inl err)
      from mountDir_open_fail [OF inv1 om False Inl] st False
      have s': "?s' = s1\<lparr>open_calls := open_calls s1 @ [(root, False)]\<rparr>"
        and i: "cache_inv ?s'" by simp_all
      have "\<And>r. handle_opened ?s' r = handle_opened s1 r"
        by (simp add: s' handle_opened_def cong: option.case_cong)
      then have h: "\<And>r. handle_opened ?s' r = handle_opened s r"
        by (simp add: ho1)
      have n: "\<And>r. handle_opened s r \<Longrightarrow>
          opens_of r (open_calls ?s') = opens_of r (open_calls s)"
      proof -
        fix r assume "handle_opened s r"
        with nr have "r \<noteq> root" by blast
        then show "opens_of r (open_calls ?s') = opens_of r (open_calls s)"
          by (simp add: s' log1)
      qed
      from Inl log1 have "\<And>f. os_Open w (length (open_calls s)) root \<noteq> Inr f" by simp
      with i h n show ?thesis by simp
    next
      case (Inr f)
      from mountDir_open_ok [OF inv1 om False Inr] st False
      have s': "open_calls ?s' = open_calls s1 @ [(root, True)]"
        and i: "cache_inv ?s'" and o: "handle_opened ?s' root"
        and other: "\<And>r. r \<noteq> root \<Longrightarrow> handle_opened ?s' r = handle_opened s1 r"
        by simp_all
      have "\<And>r. handle_opened s r \<Longrightarrow> handle_opened ?s' r \<and>
          opens_of r (open_calls ?s') = opens_of r (open_calls s)"
      proof -
        fix r assume hr: "handle_opened s r"
        with nr have ne: "r \<noteq> root" by blast
        from other [OF ne] hr ho1 have "handle_opened ?s' r" by simp
        moreover from ne have "opens_of r (open_calls ?s') = opens_of r (open_calls s)"
          by (simp add: s' log1)
        ultimately show "handle_opened ?s' r \<and>
          opens_of r (open_calls ?s') = opens_of r (open_calls s)" by simp
      qed
      with i o s' log1 show ?thesis by simp
    qed
  qed
  from all show "cache_inv ?s'" by simp
  from all show "\<And>r. handle_opened s r \<Longrightarrow>
           handle_opened ?s' r \<and> opens_of r (open_calls ?s') = opens_of r (open_calls s)"
    by simp
  from all show "\<And>f. \<not> handle_opened s root \<Longrightarrow> os_Open w (length (open_calls s)) root = Inr f \<Longrightarrow>
           handle_opened ?s' root \<and> open_calls ?s' = open_calls s @ [(root, True)]"
    by simp
qed

lemma GetMdt_calls_inv: "cache_inv s \<Longrightarrow> cache_inv (GetMdt_calls w s calls)"
proof (induction calls arbitrary: s)
  case Nil
  then show ?case by simp
next
  case (Cons c calls)
  obtain root fid where c: "c = (root, fid)" by (cases c)
  from Cons.prems have "cache_inv (snd (GetMdt w s root fid))" by (rule GetMdt_step(1))
  then show ?case using Cons.IH by (simp add: c)
qed

lemma GetMdt_calls_opened:
  "cache_inv s \<Longrightarrow> handle_opened s r \<Longrightarrow>
   handle_opened (GetMdt_calls w s calls) r \<and>
   opens_of r (open_calls (GetMdt_calls w s calls)) = opens_of r (open_calls s)"
proof (induction calls arbitrary: s)
  case Nil
  then show ?case by simp
next
  case (Cons c calls)
  obtain root fid where c: "c = (root, fid)" by (cases c)
  let ?s' = "snd (GetMdt w s root fid)"
  from Cons.prems have i: "cache_inv ?s'" by (simp add: GetMdt_step(1))
  from GetMdt_step(2) [OF Cons.prems(1) Cons.prems(2), of w root fid]
  have o: "handle_opened ?s' r" and n: "opens_of r (open_calls ?s') = opens_of r (open_calls s)"
    by simp_all
  from Cons.IH [OF i o] n show ?case by (simp add: c)
qed

lemma GetMdt_calls_same_root:
  "handle_opened s root \<Longrightarrow> GetMdt_calls w s (map (Pair root) fids) = s"
proof (induction fids)
  case Nil
  show ?case by simp
next
  case (Cons fid fids)
  from Cons.prems obtain m where m: "openMount s root = Some m"
    by (cases "openMount s root") (simp_all add: handle_opened_def)
  have "snd (GetMdt w s root fid) = s" by (simp add: GetMdt_opened [OF Cons.prems m])
  with Cons show ?case by simp
qed

lemma descriptor_inv_init: "descriptor_inv w init_state"
  by (simp add: descriptor_inv_def init_state_def)

lemma getOpenMount_descriptor:
  assumes "cache_inv s" and "descriptor_inv w s" and "getOpenMount s root = (m, s1)"
  shows "descriptor_inv w s1"
proof (cases "openMount s root")
  case (Some a)
  with assms show ?thesis by (simp add: getOpenMount_def)
next
  case None
  with assms have s1: "s1 = s\<lparr>heap := heap s @ [\<lparr>md_path = root, md_opened = False, md_f = None\<rparr>],
             openMount := (openMount s)(root \<mapsto> length (heap s))\<rparr>"
    by (auto simp: getOpenMount_def)
  from assms(1) have bound: "\<And>r a. openMount s r = Some a \<Longrightarrow> a < length (heap s)"
    by (simp add: cache_inv_def)
  show ?thesis
    unfolding descriptor_inv_def
  proof (intro allI impI)
    fix r a
    assume h: "openMount s1 r = Some a \<and> md_opened (heap s1 ! a)"
    show "\<exists>k f. k < length (open_calls s1) \<and> open_calls s1 ! k = (r, True) \<and>
               os_Open w k r = Inr f \<and> md_f (heap s1 ! a) = Some f"
    proof (cases "r = root")
      case True
      with h have "a = length (heap s)" by (simp add: s1)
      with h show ?thesis by (simp add: s1)
    next
      case False
      with h have a: "openMount s r = Some a" by (simp add: s1)
      from bound [OF a] h have "md_opened (heap s ! a)" by (simp add: s1 nth_append)
      with assms(2) a obtain k f where "k < length (open_calls s)" "open_calls s ! k = (r, True)"
        "os_Open w k r = Inr f" "md_f (heap s ! a) = Some f"
        unfolding descriptor_inv_def by blast
      with bound [OF a] show ?thesis by (auto simp: s1 nth_append)
    qed
  qed
qed

lemma descriptor_inv_log:
  assumes "descriptor_inv w s"
  shows "descriptor_inv w (s\<lparr>open_calls := open_calls s @ [e]\<rparr>)"
  unfolding descriptor_inv_def
proof (intro allI impI)
  fix r a
  assume "openMount (s\<lparr>open_calls := open_calls s @ [e]\<rparr>) r = Some a \<and>
      md_opened (heap (s\<lparr>open_calls := open_calls s @ [e]\<rparr>) ! a)"
  then have "openMount s r = Some a \<and> md_opened (heap s ! a)" by simp
  with assms obtain k f where "k < length (open_calls s)" "open_calls s ! k = (r, True)"
        "os_Open w k r = Inr f" "md_f (heap s ! a) = Some f"
    unfolding descriptor_inv_def by blast
  then have "k < length (open_calls (s\<lparr>open_calls := open_calls s @ [e]\<rparr>)) \<and>
      open_calls (s\<lparr>open_calls := open_calls s @ [e]\<rparr>) ! k = (r, True) \<and>
      os_Open w k r = Inr f \<and> md_f (heap (s\<lparr>open_calls := open_calls s @ [e]\<rparr>) ! a) = Some f"
    by (simp add: nth_append)
  then show "\<exists>k f. k < length (open_calls (s\<lparr>open_calls := open_calls s @ [e]\<rparr>)) \<and>
      open_calls (s\<lparr>open_calls := open_calls s @ [e]\<rparr>) ! k = (r, True) \<and>
      os_Open w k r = Inr f \<and> md_f (heap (s\<lparr>open_calls := open_calls s @ [e]\<rparr>) ! a) = Some f"
    by blast
qed

lemma mountDir_open_ok_descriptor:
  assumes "cache_inv s" and "descriptor_inv w s" and "openMount s root = Some m"
    and "os_Open w (length (open_calls s)) root = Inr f"
  defines "s' \<equiv> s\<lparr>heap := (heap s)[m := (heap s ! m)\<lparr>md_f := Some f, md_opened := True\<rparr>],
                   open_calls := open_calls s @ [(root, True)]\<rparr>"
  shows "descriptor_inv w s'" and "md_f (heap s' ! m) = Some f"
proof -
  from assms(1) have bound:
    "\<And>r a. openMount s r = Some a \<Longrightarrow> a < length (heap s) \<and> md_path (heap s ! a) = r"
    by (simp add: cache_inv_def)
  from bound [OF assms(3)] have m: "m < length (heap s)" and p: "md_path (heap s ! m) = root"
    by simp_all
  from m show "md_f (heap s' ! m) = Some f" by (simp add: s'_def)
  show "descriptor_inv w s'"
    unfolding descriptor_inv_def
  proof (intro allI impI)
    fix r a
    assume h: "openMount s' r = Some a \<and> md_opened (heap s' ! a)"
    then have a: "openMount s r = Some a" by (simp add: s'_def)
    show "\<exists>k f. k < length (open_calls s') \<and> open_calls s' ! k = (r, True) \<and>
               os_Open w k r = Inr f \<and> md_f (heap s' ! a) = Some f"
    proof (cases "a = m")
      case True
      with bound [OF a] p have r: "r = root" by simp
      have "length (open_calls s) < length (open_calls s') \<and>
          open_calls s' ! length (open_calls s) = (r, True) \<and>
          os_Open w (length (open_calls s)) r = Inr f \<and> md_f (heap s' ! a) = Some f"
        using m assms(4) by (simp add: s'_def r True)
      then show ?thesis by blast
    next
      case False
      with h have "md_opened (heap s ! a)" by (simp add: s'_def)
      with assms(2) a obtain k g where "k < length (open_calls s)" "open_calls s ! k = (r, True)"
        "os_Open w k r = Inr g" "md_f (heap s ! a) = Some g"
        unfolding descriptor_inv_def by blast
      with False have "k < length (open_calls s') \<and> open_calls s' ! k = (r, True) \<and>
               os_Open w k r = Inr g \<and> md_f (heap s' ! a) = Some g"
        by (simp add: s'_def nth_append)
      then show ?thesis by blast
    qed
  qed
qed


lemma GetMdt_unopened:
  assumes inv: "cache_inv s" and dinv: "descriptor_inv w s" and no: "\<not> handle_opened s root"
  shows "os_Open w (length (open_calls s)) root = Inl err \<Longrightarrow>
           fst (GetMdt w s root fid) = (0, Some err) \<and>
           open_calls (snd (GetMdt w s root fid)) = open_calls s @ [(root, False)] \<and>
           \<not> handle_opened (snd (GetMdt w s root fid)) root \<and>
           descriptor_inv w (snd (GetMdt w s root fid))"
    and "os_Open w (length (open_calls s)) root = Inr f \<Longrightarrow>
           fst (GetMdt w s root fid) =
             (case llapi_GetMdtIndexByFid w f fid of
                Inl e \<Rightarrow> (0, Some e) | Inr mdtIndex \<Rightarrow> (mdtIndex, None)) \<and>
           open_calls (snd (GetMdt w s root fid)) = open_calls s @ [(root, True)] \<and>
           handle_opened (snd (GetMdt w s root fid)) root \<and>
           (\<exists>m. openMount (snd (GetMdt w s root fid)) root = Some m \<and>
                md_f (heap (snd (GetMdt w s root fid)) ! m) = Some f) \<and>
           descriptor_inv w (snd (GetMdt w s root fid))"
proof -
  obtain m s1 where g: "getOpenMount s root = (m, s1)" by (cases "getOpenMount s root")
  from getOpenMount_inv [OF inv g]
  have inv1: "cache_inv s1" and om: "openMount s1 root = Some m"
    and log1: "open_calls s1 = open_calls s"
    and ho1: "\<And>r. handle_opened s1 r = handle_opened s r"
    by simp_all
  have dinv1: "descriptor_inv w s1" by (rule getOpenMount_descriptor [OF inv dinv g])
  from no ho1 [of root] have "\<not> handle_opened s1 root" by simp
  with om have un: "\<not> md_opened (heap s1 ! m)" by (simp add: handle_opened_def)
  have G: "GetMdt w s root fid = mountDir_GetMdt w s1 m fid" by (simp add: GetMdt_def g)
  {
    assume o: "os_Open w (length (open_calls s)) root = Inl err"
    then have o1: "os_Open w (length (open_calls s1)) root = Inl err" by (simp add: log1)
    let ?s' = "s1\<lparr>open_calls := open_calls s1 @ [(root, False)]\<rparr>"
    from mountDir_open_fail(1) [OF inv1 om un o1]
    have r: "GetMdt w s root fid = ((0, Some err), ?s')"
      using un by (simp add: G mountDir_GetMdt_def)
    have "\<not> handle_opened ?s' root" using un om by (simp add: handle_opened_def)
    moreover have "descriptor_inv w ?s'" by (rule descriptor_inv_log [OF dinv1])
    ultimately show "fst (GetMdt w s root fid) = (0, Some err) \<and>
           open_calls (snd (GetMdt w s root fid)) = open_calls s @ [(root, False)] \<and>
           \<not> handle_opened (snd (GetMdt w s root fid)) root \<and>
           descriptor_inv w (snd (GetMdt w s root fid))"
      by (simp add: r log1)
  }
  {
    assume o: "os_Open w (length (open_calls s)) root = Inr f"
    then have o1: "os_Open w (length (open_calls s1)) root = Inr f" by (simp add: log1)
    let ?s' = "s1\<lparr>heap := (heap s1)[m := (heap s1 ! m)\<lparr>md_f := Some f, md_opened := True\<rparr>],
                   open_calls := open_calls s1 @ [(root, True)]\<rparr>"
    from mountDir_open_ok(1) [OF inv1 om un o1]
    have op: "mountDir_open w s1 m = (None, ?s')" .
    from mountDir_open_ok(3) [OF inv1 om un o1] have ho: "handle_opened ?s' root" .
    from mountDir_open_ok_descriptor [OF inv1 dinv1 om o1]
    have d': "descriptor_inv w ?s'" and f: "md_f (heap ?s' ! m) = Some f" by simp_all
    have r: "GetMdt w s root fid =
        ((case llapi_GetMdtIndexByFid w f fid of
                Inl e \<Rightarrow> (0, Some e) | Inr mdtIndex \<Rightarrow> (mdtIndex, None)), ?s')"
      using un op f by (simp add: G mountDir_GetMdt_def File_Fd_def split: sum.splits)
    have "openMount ?s' root = Some m" using om by simp
    with f have "\<exists>m. openMount ?s' root = Some m \<and> md_f (heap ?s' ! m) = Some f" by blast
    with ho d' show "fst (GetMdt w s root fid) =
             (case llapi_GetMdtIndexByFid w f fid of
                Inl e \<Rightarrow> (0, Some e) | Inr mdtIndex \<Rightarrow> (mdtIndex, None)) \<and>
           open_calls (snd (GetMdt w s root fid)) = open_calls s @ [(root, True)] \<and>
           handle_opened (snd (GetMdt w s root fid)) root \<and>
           (\<exists>m. openMount (snd (GetMdt w s root fid)) root = Some m \<and>
                md_f (heap (snd (GetMdt w s root fid)) ! m) = Some f) \<and>
           descriptor_inv w (snd (GetMdt w s root fid))"
      unfolding r by (simp add: log1)
  }
qed

lemma GetMdt_descriptor_inv:
  assumes inv: "cache_inv s" and dinv: "descriptor_inv w s"
  shows "descriptor_inv w (snd (GetMdt w s root fid))"
proof (cases "handle_opened s root")
  case True
  then obtain m where m: "openMount s root = Some m"
    by (cases "openMount s root") (simp_all add: handle_opened_def)
  have "snd (GetMdt w s root fid) = s" by (simp add: GetMdt_opened [OF True m])
  with dinv show ?thesis by simp
next
  case False
  show ?thesis
  proof (cases "os_Open w (length (open_calls s)) root")
    case (Inl err)
    from GetMdt_unopened(1) [OF inv dinv False Inl] show ?thesis by simp
  next
    case (Inr f)
    from GetMdt_unopened(2) [OF inv dinv False Inr] show ?thesis by simp
  qed
qed

lemma GetMdt_calls_descriptor_inv:
  "cache_inv s \<Longrightarrow> descriptor_inv w s \<Longrightarrow> descriptor_inv w (GetMdt_calls w s calls)"
proof (induction calls arbitrary: s)
  case Nil
  then show ?case by simp
next
  case (Cons c calls)
  obtain root fid where c: "c = (root, fid)" by (cases c)
  from Cons.prems have "cache_inv (snd (GetMdt w s root fid))" by (simp add: GetMdt_step(1))
  moreover from Cons.prems have "descriptor_inv w (snd (GetMdt w s root fid))"
    by (simp add: GetMdt_descriptor_inv)
  ultimately show ?case using Cons.IH by (simp add: c)
qed

text \<open>While every \<^verbatim>\<open>os.Open\<close> of the root fails, each call makes one more attempt.\<close>

lemma GetMdt_calls_all_fail:
  assumes "cache_inv s" and "descriptor_inv w s" and "\<not> handle_opened s root"
    and "list_all (\<lambda>k. \<exists>err. os_Open w (length (open_calls s) + k) root = Inl err) [0..<length fids]"
  shows "open_calls (GetMdt_calls w s (map (Pair root) fids)) =
           open_calls s @ replicate (length fids) (root, False) \<and>
         \<not> handle_opened (GetMdt_calls w s (map (Pair root) fids)) root"
  using assms
proof (induction fids arbitrary: s)
  case Nil
  then show ?case by simp
next
  case (Cons fid fids)
  let ?s' = "snd (GetMdt w s root fid)"
  from Cons.prems(4) have all: "\<And>k. k < Suc (length fids) \<Longrightarrow>
      \<exists>err. os_Open w (length (open_calls s) + k) root = Inl err"
    using less_Suc_eq by (auto simp: list_all_iff)
  from all [of 0] obtain err where e: "os_Open w (length (open_calls s)) root = Inl err" by auto
  from GetMdt_unopened(1) [OF Cons.prems(1,2,3) e, of fid]
  have l: "open_calls ?s' = open_calls s @ [(root, False)]" and h: "\<not> handle_opened ?s' root"
    and d: "descriptor_inv w ?s'" by simp_all
  from Cons.prems(1) have i: "cache_inv ?s'" by (simp add: GetMdt_step(1))
  have "list_all (\<lambda>k. \<exists>err. os_Open w (length (open_calls ?s') + k) root = Inl err) [0..<length fids]"
    unfolding list_all_iff
  proof
    fix k assume "k \<in> set [0..<length fids]"
    then have "Suc k < Suc (length fids)" by simp
    from all [OF this] show "\<exists>err. os_Open w (length (open_calls ?s') + k) root = Inl err"
      by (simp add: l)
  qed
  from Cons.IH [OF i d h this] l show ?case
    by (simp add: replicate_append_same)
qed

text \<open>
  Claim C7, as amended.  Take the state after any sequence of \<^verbatim>\<open>GetMdt\<close> calls made by
  one thread from the initial state, and any root.  The root has had one
  successful \<^verbatim>\<open>os.Open\<close> when its handle is marked opened and none otherwise.
  While the handle is not opened, every \<^verbatim>\<open>GetMdt\<close> call for the root makes one
  \<^verbatim>\<open>os.Open\<close> attempt: a failed attempt is returned as the error of the call and
  leaves the handle unopened, so that as many calls as attempts fail make as many
  underlying opens; the first attempt that succeeds stores the descriptor that
  \<^verbatim>\<open>os.Open\<close> returned, marks the handle opened and queries \<^verbatim>\<open>llapi\<close> with that
  descriptor, and further calls for the root add nothing to the log.  Once the
  handle is opened, the stored descriptor is the one returned by the successful
  \<^verbatim>\<open>os.Open\<close> of the root in the log, every \<^verbatim>\<open>GetMdt\<close> call for the root leaves
  the whole state as it is and queries \<^verbatim>\<open>llapi\<close> with that descriptor, and no later
  sequence of calls, for this or other roots, opens the root again.
\<close>

theorem GetMdt_opens_until_success:
  "let s = GetMdt_calls w init_state calls; n = length (open_calls s) in
     successful_opens_of root (open_calls s) = (if handle_opened s root then 1 else 0) \<and>
     (\<not> handle_opened s root \<longrightarrow>
        (\<forall>err. os_Open w n root = Inl err \<longrightarrow>
           fst (GetMdt w s root fid) = (0, Some err) \<and>
           open_calls (snd (GetMdt w s root fid)) = open_calls s @ [(root, False)] \<and>
           \<not> handle_opened (snd (GetMdt w s root fid)) root) \<and>
        (\<forall>f. os_Open w n root = Inr f \<longrightarrow>
           fst (GetMdt w s root fid) =
             (case llapi_GetMdtIndexByFid w f fid of
                Inl e \<Rightarrow> (0, Some e) | Inr mdtIndex \<Rightarrow> (mdtIndex, None)) \<and>
           open_calls (snd (GetMdt w s root fid)) = open_calls s @ [(root, True)] \<and>
           handle_opened (snd (GetMdt w s root fid)) root \<and>
           (\<exists>m. openMount (snd (GetMdt w s root fid)) root = Some m \<and>
                md_f (heap (snd (GetMdt w s root fid)) ! m) = Some f) \<and>
           (\<forall>fids. open_calls (GetMdt_calls w s ((root, fid) # map (Pair root) fids)) =
                     open_calls s @ [(root, True)])) \<and>
        (\<forall>fids. list_all (\<lambda>k. \<exists>err. os_Open w (n + k) root = Inl err) [0..<length fids] \<longrightarrow>
           open_calls (GetMdt_calls w s (map (Pair root) fids)) =
             open_calls s @ replicate (length fids) (root, False))) \<and>
     (handle_opened s root \<longrightarrow>
        (\<exists>m k f. openMount s root = Some m \<and> k < n \<and> open_calls s ! k = (root, True) \<and>
           os_Open w k root = Inr f \<and> md_f (heap s ! m) = Some f \<and>
           (\<forall>fid'. GetMdt w s root fid' =
              ((case llapi_GetMdtIndexByFid w f fid' of
                  Inl e \<Rightarrow> (0, Some e) | Inr mdtIndex \<Rightarrow> (mdtIndex, None)), s))) \<and>
        (\<forall>more. handle_opened (GetMdt_calls w s more) root \<and>
           opens_of root (open_calls (GetMdt_calls w s more)) = opens_of root (open_calls s)))"
proof -
  define s where "s = GetMdt_calls w init_state calls"
  define n where "n = length (open_calls s)"
  have inv: "cache_inv s"
    unfolding s_def by (rule GetMdt_calls_inv) (rule cache_inv_init)
  have dinv: "descriptor_inv w s"
    unfolding s_def by (rule GetMdt_calls_descriptor_inv) (rule cache_inv_init, rule descriptor_inv_init)
  from inv have a: "successful_opens_of root (open_calls s) = (if handle_opened s root then 1 else 0)"
    by (simp add: cache_inv_def)
  have b: "\<not> handle_opened s root \<longrightarrow>
        (\<forall>err. os_Open w n root = Inl err \<longrightarrow>
           fst (GetMdt w s root fid) = (0, Some err) \<and>
           open_calls (snd (GetMdt w s root fid)) = open_calls s @ [(root, False)] \<and>
           \<not> handle_opened (snd (GetMdt w s root fid)) root) \<and>
        (\<forall>f. os_Open w n root = Inr f \<longrightarrow>
           fst (GetMdt w s root fid) =
             (case llapi_GetMdtIndexByFid w f fid of
                Inl e \<Rightarrow> (0, Some e) | Inr mdtIndex \<Rightarrow> (mdtIndex, None)) \<and>
           open_calls (snd (GetMdt w s root fid)) = open_calls s @ [(root, True)] \<and>
           handle_opened (snd (GetMdt w s root fid)) root \<and>
           (\<exists>m. openMount (snd (GetMdt w s root fid)) root = Some m \<and>
                md_f (heap (snd (GetMdt w s root fid)) ! m) = Some f) \<and>
           (\<forall>fids. open_calls (GetMdt_calls w s ((root, fid) # map (Pair root) fids)) =
                     open_calls s @ [(root, True)])) \<and>
        (\<forall>fids. list_all (\<lambda>k. \<exists>err. os_Open w (n + k) root = Inl err) [0..<length fids] \<longrightarrow>
           open_calls (GetMdt_calls w s (map (Pair root) fids)) =
             open_calls s @ replicate (length fids) (root, False))"
  proof
    assume no: "\<not> handle_opened s root"
    have b1: "\<forall>err. os_Open w n root = Inl err \<longrightarrow>
           fst (GetMdt w s root fid) = (0, Some err) \<and>
           open_calls (snd (GetMdt w s root fid)) = open_calls s @ [(root, False)] \<and>
           \<not> handle_opened (snd (GetMdt w s root fid)) root"
      using GetMdt_unopened(1) [OF inv dinv no, of _ fid] by (simp add: n_def)
    have b2: "\<forall>f. os_Open w n root = Inr f \<longrightarrow>
           fst (GetMdt w s root fid) =
             (case llapi_GetMdtIndexByFid w f fid of
                Inl e \<Rightarrow> (0, Some e) | Inr mdtIndex \<Rightarrow> (mdtIndex, None)) \<and>
           open_calls (snd (GetMdt w s root fid)) = open_calls s @ [(root, True)] \<and>
           handle_opened (snd (GetMdt w s root fid)) root \<and>
           (\<exists>m. openMount (snd (GetMdt w s root fid)) root = Some m \<and>
                md_f (heap (snd (GetMdt w s root fid)) ! m) = Some f) \<and>
           (\<forall>fids. open_calls (GetMdt_calls w s ((root, fid) # map (Pair root) fids)) =
                     open_calls s @ [(root, True)])"
    proof (intro allI impI)
      fix f assume o: "os_Open w n root = Inr f"
      then have o': "os_Open w (length (open_calls s)) root = Inr f" by (simp add: n_def)
      note r = GetMdt_unopened(2) [OF inv dinv no o', of fid]
      from r have l: "open_calls (snd (GetMdt w s root fid)) = open_calls s @ [(root, True)]"
        and h: "handle_opened (snd (GetMdt w s root fid)) root" by simp_all
      have "\<forall>fids. open_calls (GetMdt_calls w s ((root, fid) # map (Pair root) fids)) =
                     open_calls s @ [(root, True)]"
        using GetMdt_calls_same_root [OF h, of w] l by simp
      with r show "fst (GetMdt w s root fid) =
             (case llapi_GetMdtIndexByFid w f fid of
                Inl e \<Rightarrow> (0, Some e) | Inr mdtIndex \<Rightarrow> (mdtIndex, None)) \<and>
           open_calls (snd (GetMdt w s root fid)) = open_calls s @ [(root, True)] \<and>
           handle_opened (snd (GetMdt w s root fid)) root \<and>
           (\<exists>m. openMount (snd (GetMdt w s root fid)) root = Some m \<and>
                md_f (heap (snd (GetMdt w s root fid)) ! m) = Some f) \<and>
           (\<forall>fids. open_calls (GetMdt_calls w s ((root, fid) # map (Pair root) fids)) =
                     open_calls s @ [(root, True)])"
        by simp
    qed
    have b3: "\<forall>fids. list_all (\<lambda>k. \<exists>err. os_Open w (n + k) root = Inl err) [0..<length fids] \<longrightarrow>
           open_calls (GetMdt_calls w s (map (Pair root) fids)) =
             open_calls s @ replicate (length fids) (root, False)"
      using GetMdt_calls_all_fail [OF inv dinv no] by (simp add: n_def)
    from b1 b2 b3 show "(\<forall>err. os_Open w n root = Inl err \<longrightarrow>
           fst (GetMdt w s root fid) = (0, Some err) \<and>
           open_calls (snd (GetMdt w s root fid)) = open_calls s @ [(root, False)] \<and>
           \<not> handle_opened (snd (GetMdt w s root fid)) root) \<and>
        (\<forall>f. os_Open w n root = Inr f \<longrightarrow>
           fst (GetMdt w s root fid) =
             (case llapi_GetMdtIndexByFid w f fid of
                Inl e \<Rightarrow> (0, Some e) | Inr mdtIndex \<Rightarrow> (mdtIndex, None)) \<and>
           open_calls (snd (GetMdt w s root fid)) = open_calls s @ [(root, True)] \<and>
           handle_opened (snd (GetMdt w s root fid)) root \<and>
           (\<exists>m. openMount (snd (GetMdt w s root fid)) root = Some m \<and>
                md_f (heap (snd (GetMdt w s root fid)) ! m) = Some f) \<and>
           (\<forall>fids. open_calls (GetMdt_calls w s ((root, fid) # map (Pair root) fids)) =
                     open_calls s @ [(root, True)])) \<and>
        (\<forall>fids. list_all (\<lambda>k. \<exists>err. os_Open w (n + k) root = Inl err) [0..<length fids] \<longrightarrow>
           open_calls (GetMdt_calls w s (map (Pair root) fids)) =
             open_calls s @ replicate (length fids) (root, False))"
      by (intro conjI)
  qed
  have c: "handle_opened s root \<longrightarrow>
        (\<exists>m k f. openMount s root = Some m \<and> k < n \<and> open_calls s ! k = (root, True) \<and>
           os_Open w k root = Inr f \<and> md_f (heap s ! m) = Some f \<and>
           (\<forall>fid'. GetMdt w s root fid' =
              ((case llapi_GetMdtIndexByFid w f fid' of
                  Inl e \<Rightarrow> (0, Some e) | Inr mdtIndex \<Rightarrow> (mdtIndex, None)), s))) \<and>
        (\<forall>more. handle_opened (GetMdt_calls w s more) root \<and>
           opens_of root (open_calls (GetMdt_calls w s more)) = opens_of root (open_calls s))"
  proof
    assume h: "handle_opened s root"
    then obtain m where m: "openMount s root = Some m"
      by (cases "openMount s root") (simp_all add: handle_opened_def)
    from h m have "md_opened (heap s ! m)" by (simp add: handle_opened_def)
    with dinv m obtain k f where k: "k < n" "open_calls s ! k = (root, True)"
      "os_Open w k root = Inr f" and f: "md_f (heap s ! m) = Some f"
      unfolding descriptor_inv_def n_def by blast
    have "\<forall>fid'. GetMdt w s root fid' =
              ((case llapi_GetMdtIndexByFid w f fid' of
                  Inl e \<Rightarrow> (0, Some e) | Inr mdtIndex \<Rightarrow> (mdtIndex, None)), s)"
      by (simp add: GetMdt_opened [OF h m] f File_Fd_def)
    with m k f have c1: "\<exists>m k f. openMount s root = Some m \<and> k < n \<and> open_calls s ! k = (root, True) \<and>
           os_Open w k root = Inr f \<and> md_f (heap s ! m) = Some f \<and>
           (\<forall>fid'. GetMdt w s root fid' =
              ((case llapi_GetMdtIndexByFid w f fid' of
                  Inl e \<Rightarrow> (0, Some e) | Inr mdtIndex \<Rightarrow> (mdtIndex, None)), s))"
      by blast
    have c2: "\<forall>more. handle_opened (GetMdt_calls w s more) root \<and>
           opens_of root (open_calls (GetMdt_calls w s more)) = opens_of root (open_calls s)"
      using GetMdt_calls_opened [OF inv h] by (intro allI)
    from c1 c2 show "(\<exists>m k f. openMount s root = Some m \<and> k < n \<and> open_calls s ! k = (root, True) \<and>
           os_Open w k root = Inr f \<and> md_f (heap s ! m) = Some f \<and>
           (\<forall>fid'. GetMdt w s root fid' =
              ((case llapi_GetMdtIndexByFid w f fid' of
                  Inl e \<Rightarrow> (0, Some e) | Inr mdtIndex \<Rightarrow> (mdtIndex, None)), s))) \<and>
        (\<forall>more. handle_opened (GetMdt_calls w s more) root \<and>
           opens_of root (open_calls (GetMdt_calls w s more)) = opens_of root (open_calls s))"
      by (rule conjI)
  qed
  from a b c show ?thesis
    unfolding s_def [symmetric] Let_def n_def [symmetric] by (intro conjI)
qed

lemma flaky_open:
  "os_Open flaky_world 0 ''/mnt/fs'' = Inl (OSError 24)"
  "os_Open flaky_world 1 ''/mnt/fs'' = Inl (OSError 24)"
  "os_Open flaky_world (Suc 0) ''/mnt/fs'' = Inl (OSError 24)"
  "os_Open flaky_world 2 ''/mnt/fs'' = Inr 3"
  "os_Open flaky_world (Suc (Suc 0)) ''/mnt/fs'' = Inr 3"
  "llapi_GetMdtIndexByFid flaky_world 3 fid = Inr 0"
  by (simp_all add: flaky_world_def demo_world_def lookup_in_def)

lemma flaky_calls:
  "GetMdt_calls flaky_world init_state [(''/mnt/fs'', 5)] =
     \<lparr>heap = [\<lparr>md_path = ''/mnt/fs'', md_opened = False, md_f = None\<rparr>],
      openMount = [''/mnt/fs'' \<mapsto> 0], open_calls = [(''/mnt/fs'', False)]\<rparr>"
  "GetMdt_calls flaky_world init_state [(''/mnt/fs'', 5), (''/mnt/fs'', 7)] =
     \<lparr>heap = [\<lparr>md_path = ''/mnt/fs'', md_opened = False, md_f = None\<rparr>],
      openMount = [''/mnt/fs'' \<mapsto> 0],
      open_calls = [(''/mnt/fs'', False), (''/mnt/fs'', False)]\<rparr>"
  "GetMdt_calls flaky_world init_state [(''/mnt/fs'', 5), (''/mnt/fs'', 7), (''/mnt/fs'', 5)] =
     \<lparr>heap = [\<lparr>md_path = ''/mnt/fs'', md_opened = True, md_f = Some 3\<rparr>],
      openMount = [''/mnt/fs'' \<mapsto> 0],
      open_calls = [(''/mnt/fs'', False), (''/mnt/fs'', False), (''/mnt/fs'', True)]\<rparr>"
  "GetMdt_calls flaky_world init_state
     [(''/mnt/fs'', 5), (''/mnt/fs'', 7), (''/mnt/fs'', 5), (''/mnt/fs'', 7)] =
     \<lparr>heap = [\<lparr>md_path = ''/mnt/fs'', md_opened = True, md_f = Some 3\<rparr>],
      openMount = [''/mnt/fs'' \<mapsto> 0],
      open_calls = [(''/mnt/fs'', False), (''/mnt/fs'', False), (''/mnt/fs'', True)]\<rparr>"
  by (simp_all add: GetMdt_def getOpenMount_def mountDir_GetMdt_def mountDir_open_def
      init_state_def flaky_open File_Fd_def)

theorem GetMdt_opens_until_success_witness:
  "\<not> handle_opened init_state ''/mnt/fs'' \<and>
   os_Open flaky_world 0 ''/mnt/fs'' = Inl (OSError 24) \<and>
   GetMdt flaky_world init_state ''/mnt/fs'' 5 =
     ((0, Some (OSError 24)), GetMdt_calls flaky_world init_state [(''/mnt/fs'', 5)]) \<and>
   open_calls (GetMdt_calls flaky_world init_state [(''/mnt/fs'', 5)]) = [(''/mnt/fs'', False)] \<and>
   open_calls (GetMdt_calls flaky_world init_state [(''/mnt/fs'', 5), (''/mnt/fs'', 7)]) =
     [(''/mnt/fs'', False), (''/mnt/fs'', False)] \<and>
   \<not> handle_opened (GetMdt_calls flaky_world init_state [(''/mnt/fs'', 5), (''/mnt/fs'', 7)])
        ''/mnt/fs'' \<and>
   os_Open flaky_world 2 ''/mnt/fs'' = Inr 3 \<and>
   fst (GetMdt flaky_world
     (GetMdt_calls flaky_world init_state [(''/mnt/fs'', 5), (''/mnt/fs'', 7)]) ''/mnt/fs'' 5) =
     (0, None) \<and>
   open_calls (GetMdt_calls flaky_world init_state
     [(''/mnt/fs'', 5), (''/mnt/fs'', 7), (''/mnt/fs'', 5), (''/mnt/fs'', 7), (''/mnt/fs'', 5)]) =
     [(''/mnt/fs'', False), (''/mnt/fs'', False), (''/mnt/fs'', True)] \<and>
   handle_opened (GetMdt_calls flaky_world init_state
     [(''/mnt/fs'', 5), (''/mnt/fs'', 7), (''/mnt/fs'', 5)]) ''/mnt/fs'' \<and>
   md_f (heap (GetMdt_calls flaky_world init_state
     [(''/mnt/fs'', 5), (''/mnt/fs'', 7), (''/mnt/fs'', 5)]) ! 0) = Some 3 \<and>
   successful_opens_of ''/mnt/fs'' (open_calls (GetMdt_calls flaky_world init_state
     [(''/mnt/fs'', 5), (''/mnt/fs'', 7), (''/mnt/fs'', 5)])) = 1 \<and>
   opens_of ''/mnt/fs'' (open_calls (GetMdt_calls flaky_world
     (GetMdt_calls flaky_world init_state [(''/mnt/fs'', 5), (''/mnt/fs'', 7), (''/mnt/fs'', 5)])
     [(''/mnt/fs'', 7), (''/mnt'', 7), (''/mnt/fs'', 5)])) = 3"
proof -
  let ?r = "''/mnt/fs''"
  let ?s2 = "GetMdt_calls flaky_world init_state [(?r, 5), (?r, 7)]"
  let ?s3 = "GetMdt_calls flaky_world init_state [(?r, 5), (?r, 7), (?r, 5)]"
  have h0: "\<not> handle_opened init_state ?r"
    by (simp add: handle_opened_def init_state_def)
  have l0: "open_calls init_state = []" by (simp add: init_state_def)
  have h2: "\<not> handle_opened ?s2 ?r"
    by (simp only: flaky_calls) (simp add: handle_opened_def)
  have l2: "open_calls ?s2 = [(?r, False), (?r, False)]"
    by (simp only: flaky_calls) simp
  have h3: "handle_opened ?s3 ?r"
    by (simp only: flaky_calls) (simp add: handle_opened_def)
  have l3: "opens_of ?r (open_calls ?s3) = 3"
    by (simp only: flaky_calls) (simp add: opens_of_def)
  have f3: "md_f (heap ?s3 ! 0) = Some 3"
    by (simp only: flaky_calls) simp
  note t0 = GetMdt_opens_until_success [of flaky_world "[]" ?r 5, unfolded Let_def GetMdt_calls.simps(1)]
  from t0 h0
  have a1: "fst (GetMdt flaky_world init_state ?r 5) = (0, Some (OSError 24))"
    and a2: "open_calls (snd (GetMdt flaky_world init_state ?r 5)) = [(?r, False)]"
    by (simp_all add: l0 flaky_open)
  from t0 h0
  have "\<forall>fids. list_all (\<lambda>k. \<exists>err. os_Open flaky_world
            (length (open_calls init_state) + k) ?r = Inl err) [0..<length fids] \<longrightarrow>
         open_calls (GetMdt_calls flaky_world init_state (map (Pair ?r) fids)) =
           open_calls init_state @ replicate (length fids) (?r, False)"
    by blast
  from this [rule_format, of "[5, 7]"]
  have a3: "open_calls (GetMdt_calls flaky_world init_state [(?r, 5), (?r, 7)]) =
        [(?r, False), (?r, False)]"
    by (simp add: l0 flaky_open upt_rec [of 0] upt_rec [of "Suc 0"] numeral_2_eq_2
        del: GetMdt_calls.simps)
  have a: "GetMdt flaky_world init_state ?r 5 =
      ((0, Some (OSError 24)), GetMdt_calls flaky_world init_state [(?r, 5)])"
    using a1 by (simp add: prod_eq_iff del: GetMdt_calls.simps) simp
  note t2 = GetMdt_opens_until_success [of flaky_world "[(?r, 5), (?r, 7)]" ?r 5, unfolded Let_def]
  from t2 h2
  have b1: "fst (GetMdt flaky_world ?s2 ?r 5) = (0, None)"
    by (simp add: l2 flaky_open del: GetMdt_calls.simps)
  from t2 h2
  have "\<forall>fids. open_calls (GetMdt_calls flaky_world ?s2 ((?r, 5) # map (Pair ?r) fids)) =
        open_calls ?s2 @ [(?r, True)]"
    by (simp add: l2 flaky_open del: GetMdt_calls.simps)
  from this [rule_format, of "[7, 5]"]
  have b2: "open_calls (GetMdt_calls flaky_world ?s2 ((?r, 5) # map (Pair ?r) [7, 5])) =
        open_calls ?s2 @ [(?r, True)]" .
  from GetMdt_opens_until_success [of flaky_world "[(?r, 5), (?r, 7), (?r, 5)]" ?r] h3
  have c1: "successful_opens_of ?r (open_calls ?s3) = 1"
    and c2: "opens_of ?r (open_calls (GetMdt_calls flaky_world ?s3
        [(?r, 7), (''/mnt'', 7), (?r, 5)])) = opens_of ?r (open_calls ?s3)"
    unfolding Let_def by (simp, blast)
  have b: "open_calls (GetMdt_calls flaky_world init_state
     [(?r, 5), (?r, 7), (?r, 5), (?r, 7), (?r, 5)]) = [(?r, False), (?r, False), (?r, True)]"
  proof -
    have "GetMdt_calls flaky_world init_state [(?r, 5), (?r, 7), (?r, 5), (?r, 7), (?r, 5)] =
        GetMdt_calls flaky_world ?s2 ((?r, 5) # map (Pair ?r) [7, 5])"
      by simp
    with b2 l2 show ?thesis by (simp del: GetMdt_calls.simps)
  qed
  have a2': "open_calls (GetMdt_calls flaky_world init_state [(?r, 5)]) = [(?r, False)]"
    using a2 by simp
  from h0 a a2' a3 h2 b1 b h3 f3 c1 c2 l3 show ?thesis
    by (simp add: flaky_open del: GetMdt_calls.simps)
qed

text \<open>Claim C7 as stated fails: where the first two \<^verbatim>\<open>os.Open\<close> attempts fail, four
  \<^verbatim>\<open>GetMdt\<close> calls for one root make three underlying opens of the root directory,
  not exactly one, and two calls make two, none of them successful.\<close>

theorem GetMdt_retries_failed_open:
  "os_Open flaky_world 0 ''/mnt/fs'' = Inl (OSError 24) \<and>
   os_Open flaky_world 1 ''/mnt/fs'' = Inl (OSError 24) \<and>
   os_Open flaky_world 2 ''/mnt/fs'' = Inr 3 \<and>
   open_calls (GetMdt_calls flaky_world init_state
     [(''/mnt/fs'', 5), (''/mnt/fs'', 7), (''/mnt/fs'', 5), (''/mnt/fs'', 7)]) =
     [(''/mnt/fs'', False), (''/mnt/fs'', False), (''/mnt/fs'', True)] \<and>
   opens_of ''/mnt/fs'' (open_calls (GetMdt_calls flaky_world init_state
     [(''/mnt/fs'', 5), (''/mnt/fs'', 7), (''/mnt/fs'', 5), (''/mnt/fs'', 7)])) = 3 \<and>
   opens_of ''/mnt/fs'' (open_calls (GetMdt_calls flaky_world init_state
     [(''/mnt/fs'', 5), (''/mnt/fs'', 7)])) = 2 \<and>
   successful_opens_of ''/mnt/fs'' (open_calls (GetMdt_calls flaky_world init_state
     [(''/mnt/fs'', 5), (''/mnt/fs'', 7)])) = 0"
  by (simp add: flaky_calls flaky_open opens_of_def successful_opens_of_def
      del: GetMdt_calls.simps)

section \<open>Steps of the ancestor walk\<close>

lemma rootDevice_on [simp]:
  "rootDevice (file_on d) = Returns d" "rootDevice (dir_on d) = Returns d"
  by (simp_all add: rootDevice_def file_on_def dir_on_def)

lemma findRoot_step:
  "os_Lstat w (Dir x) = Inr fi \<Longrightarrow> rootDevice fi = Returns dev \<Longrightarrow> x \<noteq> ''/'' \<Longrightarrow>
   findRoot w dev x = findRoot w dev (Dir x)"
  by (subst findRoot.simps) (simp add: Let_def)

lemma findRelPath_step:
  "os_Lstat w (Dir x) = Inr fi \<Longrightarrow> rootDevice fi = Returns dev \<Longrightarrow> x \<noteq> ''/'' \<Longrightarrow>
   findRelPath w dev x rel = findRelPath w dev (Dir x) (Base x # rel)"
  by (subst findRelPath.simps) (simp add: Let_def)

lemma findRoot_lstat_fails:
  "os_Lstat w (Dir x) = Inl err \<Longrightarrow> findRoot w dev x = Some (Returns [])"
  by (subst findRoot.simps) (simp add: Let_def)

lemma findRelPath_lstat_fails:
  "os_Lstat w (Dir x) = Inl err \<Longrightarrow> findRelPath w dev x rel = Some (Returns ([], []))"
  by (subst findRelPath.simps) (simp add: Let_def)

lemma findRoot_boundary:
  "os_Lstat w (Dir x) = Inr fi \<Longrightarrow> rootDevice fi = Returns d \<Longrightarrow> d \<noteq> dev \<or> x = ''/'' \<Longrightarrow>
   findRoot w dev x =
     Some (Returns (if isDotLustre w (Join [x, ''.lustre'']) then x else []))"
  by (subst findRoot.simps) (auto simp: Let_def)

lemma findRelPath_boundary:
  "os_Lstat w (Dir x) = Inr fi \<Longrightarrow> rootDevice fi = Returns d \<Longrightarrow> d \<noteq> dev \<or> x = ''/'' \<Longrightarrow>
   findRelPath w dev x rel =
     Some (Returns (if isDotLustre w (Join [x, ''.lustre'']) then (x, Join rel) else ([], [])))"
  by (subst findRelPath.simps) (auto simp: Let_def)

lemma walk_findRoot:
  "walk_reaches w dev p x \<Longrightarrow> findRoot w dev p = findRoot w dev x"
  by (induction rule: walk_reaches.induct) (simp_all add: findRoot_step)

lemma walk_findRelPath:
  "walk_reaches w dev p x \<Longrightarrow> \<exists>rel'. findRelPath w dev p rel = findRelPath w dev x rel'"
proof (induction rule: walk_reaches.induct)
  case start
  show ?case by blast
next
  case (step x fi)
  then obtain rel' where "findRelPath w dev p rel = findRelPath w dev x rel'" by blast
  with findRelPath_step [OF step.hyps(2,3,4)] show ?case by metis
qed

text \<open>Where \<^verbatim>\<open>path.Dir\<close> gives the pathname back and the walk continues, the call
  never returns.\<close>

lemma findRoot_fixed_point_aux:
  assumes r: "findRoot w' dev' x' = Some y'"
    and fp: "Dir x = x" "x \<noteq> ''/''" "os_Lstat w x = Inr fi" "rootDevice fi = Returns dev"
  shows "\<not> (w' = w \<and> dev' = dev \<and> x' = x)"
proof (rule findRoot.raw_induct
    [where P = "\<lambda>w' dev' x' y'. \<not> (w' = w \<and> dev' = dev \<and> x' = x)", OF _ r])
  fix f w' dev' x' y'
  assume ih: "\<And>w' dev' x' y'. f w' dev' x' = Some y' \<Longrightarrow> \<not> (w' = w \<and> dev' = dev \<and> x' = x)"
    and body: "(let parent = Dir x'
      in case os_Lstat w' parent of
           Inl err \<Rightarrow> Some (Returns [])
         | Inr fi \<Rightarrow>
             (case rootDevice fi of
                Returns d \<Rightarrow>
                  if d \<noteq> dev' \<or> x' = ''/'' then
                    (if isDotLustre w' (Join [x', ''.lustre''])
                     then Some (Returns x')
                     else Some (Returns []))
                  else f w' dev' parent
              | Panics pn \<Rightarrow> Some (Panics pn))) = Some y'"
  show "\<not> (w' = w \<and> dev' = dev \<and> x' = x)"
  proof
    assume e: "w' = w \<and> dev' = dev \<and> x' = x"
    with body fp have "f w dev x = Some y'" by (simp add: Let_def)
    from ih [OF this] show False by simp
  qed
qed

lemma findRoot_fixed_point_diverges:
  assumes "Dir x = x" and "x \<noteq> ''/''"
    and "os_Lstat w x = Inr fi" and "rootDevice fi = Returns dev"
  shows "findRoot w dev x = None"
proof (cases "findRoot w dev x")
  case (Some y)
  from findRoot_fixed_point_aux [OF Some assms] show ?thesis by simp
qed simp

lemma findRelPath_fixed_point_aux:
  assumes r: "findRelPath w' dev' x' rel' = Some y'"
    and fp: "Dir x = x" "x \<noteq> ''/''" "os_Lstat w x = Inr fi" "rootDevice fi = Returns dev"
  shows "\<not> (w' = w \<and> dev' = dev \<and> x' = x)"
proof (rule findRelPath.raw_induct
    [where P = "\<lambda>w' dev' x' rel' y'. \<not> (w' = w \<and> dev' = dev \<and> x' = x)", OF _ r])
  fix f w' dev' x' rel' y'
  assume ih: "\<And>w' dev' x' rel' y'. f w' dev' x' rel' = Some y' \<Longrightarrow>
      \<not> (w' = w \<and> dev' = dev \<and> x' = x)"
    and body: "(let parent = Dir x'
      in case os_Lstat w' parent of
           Inl err \<Rightarrow> Some (Returns ([], []))
         | Inr fi \<Rightarrow>
             (case rootDevice fi of
                Returns d \<Rightarrow>
                  if d \<noteq> dev' \<or> x' = ''/'' then
                    (if isDotLustre w' (Join [x', ''.lustre''])
                     then Some (Returns (x', Join rel'))
                     else Some (Returns ([], [])))
                  else f w' dev' parent ([Base x'] @ rel')
              | Panics pn \<Rightarrow> Some (Panics pn))) = Some y'"
  show "\<not> (w' = w \<and> dev' = dev \<and> x' = x)"
  proof
    assume e: "w' = w \<and> dev' = dev \<and> x' = x"
    with body fp have "f w dev x ([Base x] @ rel') = Some y'" by (simp add: Let_def)
    from ih [OF this] show False by simp
  qed
qed

lemma findRelPath_fixed_point_diverges:
  assumes "Dir x = x" and "x \<noteq> ''/''"
    and "os_Lstat w x = Inr fi" and "rootDevice fi = Returns dev"
  shows "findRelPath w dev x rel = None"
proof (cases "findRelPath w dev x rel")
  case (Some y)
  from findRelPath_fixed_point_aux [OF Some assms] show ?thesis by simp
qed simp

section \<open>A parent that cannot be stat-ed\<close>

lemma noaccess_paths:
  "Dir ''/srv/data/f'' = ''/srv/data''" "Dir ''/srv/data'' = ''/srv''"
  "filepath_Clean ''/srv/data/f'' = ''/srv/data/f''"
  unfolding filepath_Clean_def by code_simp+

lemma noaccess_lstat:
  "os_Lstat noaccess_world ''/srv/data/f'' = Inr (file_on 1)"
  "os_Lstat noaccess_world ''/srv/data'' = Inr (dir_on 1)"
  "os_Lstat noaccess_world ''/srv'' = Inl (OSError 13)"
  by (simp_all add: noaccess_world_def lookup_in_def)

text \<open>
  Claim C1, as amended.  \<^verbatim>\<open>findRoot\<close> and \<^verbatim>\<open>findRelPath\<close> return strings only, and
  answer a failed \<^verbatim>\<open>Lstat\<close> of a parent with the empty string.  So when the
  starting entry can be stat-ed and the walk reaches a pathname whose parent
  cannot, \<^verbatim>\<open>MountRoot\<close> and \<^verbatim>\<open>MountRelPath\<close> fail with the error
  \<^verbatim>\<open>"<path> not a Lustre filesystem"\<close>, the same as for a failed sentinel check;
  the error of the failed \<^verbatim>\<open>Lstat\<close> is dropped.
\<close>

theorem parent_stat_failure_gives_not_lustre:
  "(os_Lstat w p = Inr fi \<and> rootDevice fi = Returns dev \<and>
      walk_reaches w dev p x \<and> os_Lstat w (Dir x) = Inl err \<longrightarrow>
      MountRoot w p = Some (Returns ([], Some (Errorf (p @ '' not a Lustre filesystem''))))) \<and>
   (os_Lstat w (filepath_Clean p) = Inr fi \<and> rootDevice fi = Returns dev \<and>
      walk_reaches w dev (filepath_Clean p) x \<and> os_Lstat w (Dir x) = Inl err \<longrightarrow>
      MountRelPath w p =
        Some (Returns ([], [], Some (Errorf (filepath_Clean p @ '' not a Lustre filesystem'')))))"
proof (intro conjI impI)
  assume h: "os_Lstat w p = Inr fi \<and> rootDevice fi = Returns dev \<and>
      walk_reaches w dev p x \<and> os_Lstat w (Dir x) = Inl err"
  then have "findRoot w dev p = Some (Returns [])"
    by (simp add: walk_findRoot [of w dev p x] findRoot_lstat_fails)
  with h show "MountRoot w p = Some (Returns ([], Some (Errorf (p @ '' not a Lustre filesystem''))))"
    by (simp add: MountRoot_def)
next
  assume h: "os_Lstat w (filepath_Clean p) = Inr fi \<and> rootDevice fi = Returns dev \<and>
      walk_reaches w dev (filepath_Clean p) x \<and> os_Lstat w (Dir x) = Inl err"
  then obtain rel' where
    "findRelPath w dev (filepath_Clean p) [] = findRelPath w dev x rel'"
    using walk_findRelPath by blast
  with h have "findRelPath w dev (filepath_Clean p) [] = Some (Returns ([], []))"
    by (simp add: findRelPath_lstat_fails)
  with h show "MountRelPath w p =
        Some (Returns ([], [], Some (Errorf (filepath_Clean p @ '' not a Lustre filesystem''))))"
    by (simp add: MountRelPath_def Let_def)
qed

lemma noaccess_walk: "walk_reaches noaccess_world 1 ''/srv/data/f'' ''/srv/data''"
  using walk_reaches.step [OF walk_reaches.start, of noaccess_world "''/srv/data/f''" "dir_on 1" 1]
  by (simp add: noaccess_paths noaccess_lstat)

theorem parent_stat_failure_gives_not_lustre_witness:
  "os_Lstat noaccess_world ''/srv/data/f'' = Inr (file_on 1) \<and>
   walk_reaches noaccess_world 1 ''/srv/data/f'' ''/srv/data'' \<and>
   os_Lstat noaccess_world (Dir ''/srv/data'') = Inl (OSError 13) \<and>
   MountRoot noaccess_world ''/srv/data/f'' =
     Some (Returns ([], Some (Errorf ''/srv/data/f not a Lustre filesystem''))) \<and>
   MountRelPath noaccess_world ''/srv/data/f'' =
     Some (Returns ([], [], Some (Errorf ''/srv/data/f not a Lustre filesystem'')))"
  using parent_stat_failure_gives_not_lustre
    [of noaccess_world "''/srv/data/f''" "file_on 1" 1 "''/srv/data''" "OSError 13"]
    noaccess_walk
  by (simp add: noaccess_paths noaccess_lstat)

text \<open>Claim C1 as stated fails: \<^verbatim>\<open>/srv/data/f\<close> can be stat-ed, the \<^verbatim>\<open>Lstat\<close> of its
  ancestor \<^verbatim>\<open>/srv\<close> fails with error 13, and neither function returns that error.\<close>

theorem parent_stat_failure_not_propagated:
  "os_Lstat noaccess_world ''/srv/data/f'' = Inr (file_on 1) \<and>
   os_Lstat noaccess_world (Dir (Dir ''/srv/data/f'')) = Inl (OSError 13) \<and>
   MountRoot noaccess_world ''/srv/data/f'' \<noteq> Some (Returns ([], Some (OSError 13))) \<and>
   MountRelPath noaccess_world ''/srv/data/f'' \<noteq> Some (Returns ([], [], Some (OSError 13)))"
proof -
  have "findRoot noaccess_world 1 ''/srv/data/f'' = Some (Returns [])"
    using walk_findRoot [OF noaccess_walk]
    by (simp add: findRoot_lstat_fails noaccess_paths noaccess_lstat)
  moreover have "findRelPath noaccess_world 1 ''/srv/data/f'' [] = Some (Returns ([], []))"
    using walk_findRelPath [OF noaccess_walk, of "[]"]
    by (auto simp: findRelPath_lstat_fails noaccess_paths noaccess_lstat)
  ultimately show ?thesis
    by (simp add: MountRoot_def MountRelPath_def noaccess_paths noaccess_lstat)
qed

section \<open>A relative path inside its working directory's device\<close>

lemma relative_paths:
  "Dir ''a'' = ''.''" "Dir ''.'' = ''.''" "filepath_Clean ''a'' = ''a''"
  unfolding filepath_Clean_def by code_simp+

lemma relative_lstat:
  "os_Lstat relative_world ''a'' = Inr (file_on 1)"
  "os_Lstat relative_world ''.'' = Inr (dir_on 1)"
  by (simp_all add: relative_world_def lookup_in_def)

text \<open>
  Claim C4 fails on the code.  The walk stops climbing only at \<^verbatim>\<open>/\<close>; for a
  relative path it arrives at \<^verbatim>\<open>.\<close>, whose \<^verbatim>\<open>path.Dir\<close> is \<^verbatim>\<open>.\<close> again.  With the
  file \<^verbatim>\<open>a\<close> and the working directory on one device, \<^verbatim>\<open>findRoot\<close> and
  \<^verbatim>\<open>findRelPath\<close> never return, and neither do \<^verbatim>\<open>MountRoot("a")\<close> and
  \<^verbatim>\<open>MountRelPath("a")\<close>.
\<close>

theorem relative_path_walk_never_returns:
  "os_Lstat relative_world ''a'' = Inr (file_on 1) \<and>
   findRoot relative_world 1 ''a'' = None \<and>
   findRelPath relative_world 1 ''a'' [] = None \<and>
   MountRoot relative_world ''a'' = None \<and>
   MountRelPath relative_world ''a'' = None"
proof -
  have d: "findRoot relative_world 1 ''.'' = None"
    by (rule findRoot_fixed_point_diverges [where fi = "dir_on 1"])
       (simp_all add: relative_paths relative_lstat)
  have "findRoot relative_world 1 ''a'' = findRoot relative_world 1 (Dir ''a'')"
    by (rule findRoot_step [where fi = "dir_on 1"]) (simp_all add: relative_paths relative_lstat)
  with d have a: "findRoot relative_world 1 ''a'' = None" by (simp add: relative_paths)
  have d': "\<And>rel. findRelPath relative_world 1 ''.'' rel = None"
    by (rule findRelPath_fixed_point_diverges [where fi = "dir_on 1"])
       (simp_all add: relative_paths relative_lstat)
  have "findRelPath relative_world 1 ''a'' [] = findRelPath relative_world 1 (Dir ''a'') (Base ''a'' # [])"
    by (rule findRelPath_step [where fi = "dir_on 1"]) (simp_all add: relative_paths relative_lstat)
  with d' have b: "findRelPath relative_world 1 ''a'' [] = None" by (simp add: relative_paths)
  from a b show ?thesis
    by (simp add: MountRoot_def MountRelPath_def relative_paths relative_lstat)
qed

section \<open>Components of a path and \<^verbatim>\<open>path.Clean\<close> as a stack machine\<close>

lemma tokens_Nil [simp]: "tokens [] = []"
  by (simp add: tokens_def genSplit_no_sep)

lemma tokens_slash [simp]: "tokens (CHR ''/'' # s) = tokens s"
  by (simp add: tokens_def genSplit_sep)

lemma tokens_slashfree: "slashfree t \<Longrightarrow> t \<noteq> [] \<Longrightarrow> tokens t = [t]"
  by (simp add: tokens_def genSplit_no_sep slashfree_def)

lemma takeWhile_to_slash:
  "CHR ''/'' \<notin> set t \<Longrightarrow> takeWhile (\<lambda>x. x \<noteq> CHR ''/'') (t @ CHR ''/'' # s) = t"
  by (induction t) auto

lemma dropWhile_to_slash:
  "CHR ''/'' \<notin> set t \<Longrightarrow> dropWhile (\<lambda>x. x \<noteq> CHR ''/'') (t @ CHR ''/'' # s) = CHR ''/'' # s"
  by (induction t) auto

lemma tokens_append_slash:
  "slashfree t \<Longrightarrow> tokens (t @ CHR ''/'' # s) = (if t = [] then tokens s else t # tokens s)"
proof -
  assume t: "slashfree t"
  then have "takeWhile (\<lambda>x. x \<noteq> CHR ''/'') (t @ CHR ''/'' # s) = t"
    by (simp add: slashfree_def takeWhile_to_slash)
  moreover from t have "dropWhile (\<lambda>x. x \<noteq> CHR ''/'') (t @ CHR ''/'' # s) = CHR ''/'' # s"
    by (simp add: slashfree_def dropWhile_to_slash)
  ultimately show ?thesis
    by (simp add: tokens_def genSplit_sep [of "CHR ''/''" "t @ CHR ''/'' # s"])
qed

lemma tokens_append:
  "tokens (a @ CHR ''/'' # s) = tokens a @ tokens s"
proof (induction a rule: length_induct)
  case (1 a)
  show ?case
  proof (cases "CHR ''/'' \<in> set a")
    case False
    then have sf: "slashfree a" by (simp add: slashfree_def)
    show ?thesis
    proof (cases "a = []")
      case True
      then show ?thesis by simp
    next
      case False
      with sf show ?thesis by (simp add: tokens_append_slash tokens_slashfree)
    qed
  next
    case True
    then obtain t r where a: "a = t @ CHR ''/'' # r" and t: "CHR ''/'' \<notin> set t"
      by (meson split_list_first)
    then have sf: "slashfree t" by (simp add: slashfree_def)
    have "length r < length a" by (simp add: a)
    with 1 have ih: "tokens (r @ CHR ''/'' # s) = tokens r @ tokens s" by blast
    have "tokens (a @ CHR ''/'' # s) = tokens (t @ CHR ''/'' # (r @ CHR ''/'' # s))"
      by (simp add: a)
    also have "\<dots> = (if t = [] then tokens (r @ CHR ''/'' # s) else t # tokens (r @ CHR ''/'' # s))"
      by (rule tokens_append_slash [OF sf])
    also have "\<dots> = (if t = [] then tokens r else t # tokens r) @ tokens s"
      by (simp add: ih)
    also have "(if t = [] then tokens r else t # tokens r) = tokens a"
      by (simp add: a tokens_append_slash [OF sf])
    finally show ?thesis .
  qed
qed

lemma tokens_snoc_slash [simp]: "tokens (a @ ''/'') = tokens a"
  using tokens_append [of a "[]"] by simp

lemma tokens_all: "t \<in> set (tokens s) \<Longrightarrow> t \<noteq> [] \<and> slashfree t"
proof (induction s arbitrary: t rule: length_induct)
  case (1 s)
  show ?case
  proof (cases "CHR ''/'' \<in> set s")
    case False
    with 1(2) show ?thesis
      by (auto simp: tokens_def genSplit_no_sep slashfree_def split: if_splits)
  next
    case True
    then obtain a r where s: "s = a @ CHR ''/'' # r" and a: "CHR ''/'' \<notin> set a"
      by (meson split_list_first)
    then have sf: "slashfree a" by (simp add: slashfree_def)
    have "length r < length s" by (simp add: s)
    with 1(1) have ih: "\<And>t. t \<in> set (tokens r) \<Longrightarrow> t \<noteq> [] \<and> slashfree t" by blast
    from 1(2) have "t \<in> set (if a = [] then tokens r else a # tokens r)"
      by (simp add: s tokens_append_slash [OF sf])
    with ih sf show ?thesis by (auto split: if_splits)
  qed
qed

text \<open>The loop of \<^verbatim>\<open>path.Clean\<close> reads its input one component at a time; these are
  its equations for an empty input, a slash, and the components \<^verbatim>\<open>.\<close>, \<^verbatim>\<open>..\<close> and any other.\<close>

declare clean_loop.simps [simp del] backtrack.simps [simp del]
  strip_trailing_slashes.simps [simp del]

lemma clean_loop_Nil: "clean_loop b [] out d0 = out"
  by (subst clean_loop.simps) simp

lemma clean_loop_slash: "clean_loop b (CHR ''/'' # r) out d0 = clean_loop b r out d0"
  by (subst clean_loop.simps) simp

lemma clean_loop_dot:
  "r = [] \<or> hd r = CHR ''/'' \<Longrightarrow> clean_loop b (CHR ''.'' # r) out d0 = clean_loop b r out d0"
  by (subst clean_loop.simps) simp

lemma clean_loop_dotdot:
  "r = [] \<or> hd r = CHR ''/'' \<Longrightarrow>
   clean_loop b (CHR ''.'' # CHR ''.'' # r) out d0 =
     (if d0 < length out then
        clean_loop b r (take (backtrack out d0 (length out - 1)) out) d0
      else if \<not> b then
        clean_loop b r ((if 0 < length out then out @ ''/'' else out) @ ''..'')
          (length ((if 0 < length out then out @ ''/'' else out) @ ''..''))
      else clean_loop b r out d0)"
  by (subst clean_loop.simps) (simp add: Let_def)

lemma takeWhile_token:
  "CHR ''/'' \<notin> set t \<Longrightarrow> r = [] \<or> hd r = CHR ''/'' \<Longrightarrow>
   takeWhile (\<lambda>x. x \<noteq> CHR ''/'') (t @ r) = t"
  by (cases r) (auto simp: takeWhile_to_slash)

lemma dropWhile_token:
  "CHR ''/'' \<notin> set t \<Longrightarrow> r = [] \<or> hd r = CHR ''/'' \<Longrightarrow>
   dropWhile (\<lambda>x. x \<noteq> CHR ''/'') (t @ r) = r"
  by (cases r) (auto simp: dropWhile_to_slash)

lemma clean_loop_token:
  assumes t: "t \<noteq> []" "CHR ''/'' \<notin> set t" "t \<noteq> ''.''" "t \<noteq> ''..''"
    and r: "r = [] \<or> hd r = CHR ''/''"
  shows "clean_loop b (t @ r) out d0 =
     clean_loop b r
       ((if b \<and> length out \<noteq> 1 \<or> \<not> b \<and> length out \<noteq> 0 then out @ ''/'' else out) @ t) d0"
proof -
  from t(1) obtain c cs where tc: "t = c # cs" by (cases t) auto
  with t(2) have c: "c \<noteq> CHR ''/''" and cs: "CHR ''/'' \<notin> set cs" by auto
  have n2: "\<not> (c = CHR ''.'' \<and> (cs @ r = [] \<or> hd (cs @ r) = CHR ''/''))"
  proof (cases cs)
    case Nil
    with t(3) tc show ?thesis by simp
  next
    case (Cons d ds)
    with cs show ?thesis by auto
  qed
  have n3: "\<not> (c = CHR ''.'' \<and> hd (cs @ r) = CHR ''.'' \<and>
              (tl (cs @ r) = [] \<or> hd (tl (cs @ r)) = CHR ''/''))"
  proof (cases cs)
    case Nil
    with t(3) tc n2 show ?thesis by simp
  next
    case (Cons d ds)
    note c1 = Cons
    show ?thesis
    proof (cases ds)
      case Nil
      with c1 t(4) tc show ?thesis by auto
    next
      case (Cons e es)
      with c1 cs show ?thesis by auto
    qed
  qed
  have tw: "takeWhile (\<lambda>x. x \<noteq> CHR ''/'') (c # cs @ r) = t"
    using takeWhile_token [OF t(2) r] by (simp add: tc)
  have dw: "dropWhile (\<lambda>x. x \<noteq> CHR ''/'') (c # cs @ r) = r"
    using dropWhile_token [OF t(2) r] by (simp add: tc)
  have "clean_loop b (c # (cs @ r)) out d0 =
     clean_loop b r
       ((if b \<and> length out \<noteq> 1 \<or> \<not> b \<and> length out \<noteq> 0 then out @ ''/'' else out) @ t) d0"
    apply (subst clean_loop.simps)
    apply (simp only: list.case if_not_P [OF c] if_not_P [OF n2] if_not_P [OF n3] Let_def tw dw)
    done
  then show ?thesis by (simp add: tc)
qed

lemma backtrack_stop:
  assumes "k \<le> w" and "d \<le> k" and "k = d \<or> bf ! k = CHR ''/''"
    and "\<forall>i. k < i \<and> i \<le> w \<longrightarrow> bf ! i \<noteq> CHR ''/''"
  shows "backtrack bf d w = k"
  using assms
proof (induction "w - k" arbitrary: w)
  case 0
  then have "w = k" by simp
  with 0 show ?case by (subst backtrack.simps) auto
next
  case (Suc n)
  then have w: "k < w" "d < w" "bf ! w \<noteq> CHR ''/''" by auto
  from Suc have "backtrack bf d (w - 1) = k" by (intro Suc(1)) auto
  with w show ?case by (subst backtrack.simps) simp
qed

lemma backtrack_pop_slash:
  assumes "t \<noteq> []" and "CHR ''/'' \<notin> set t" and "d \<le> length pre"
  shows "backtrack (pre @ CHR ''/'' # t) d (length (pre @ CHR ''/'' # t) - 1) = length pre"
proof (rule backtrack_stop)
  show "length pre \<le> length (pre @ CHR ''/'' # t) - 1" by simp
  show "d \<le> length pre" by fact
  show "length pre = d \<or> (pre @ CHR ''/'' # t) ! length pre = CHR ''/''" by simp
  show "\<forall>i. length pre < i \<and> i \<le> length (pre @ CHR ''/'' # t) - 1 \<longrightarrow>
      (pre @ CHR ''/'' # t) ! i \<noteq> CHR ''/''"
  proof (intro allI impI)
    fix i assume i: "length pre < i \<and> i \<le> length (pre @ CHR ''/'' # t) - 1"
    then have j: "i - length pre - 1 < length t" by auto
    from i have "(pre @ CHR ''/'' # t) ! i = t ! (i - length pre - 1)"
      by (simp add: nth_append nth_Cons')
    moreover from j have "t ! (i - length pre - 1) \<in> set t" by (rule nth_mem)
    ultimately show "(pre @ CHR ''/'' # t) ! i \<noteq> CHR ''/''"
      using assms(2) by metis
  qed
qed

lemma backtrack_pop_first:
  assumes "t \<noteq> []" and "CHR ''/'' \<notin> set t"
  shows "backtrack (pre @ t) (length pre) (length (pre @ t) - 1) = length pre"
proof (rule backtrack_stop)
  show "length pre \<le> length (pre @ t) - 1" using assms(1) by (cases t) simp_all
  show "length pre \<le> length pre" by simp
  show "length pre = length pre \<or> (pre @ t) ! length pre = CHR ''/''" by simp
  show "\<forall>i. length pre < i \<and> i \<le> length (pre @ t) - 1 \<longrightarrow> (pre @ t) ! i \<noteq> CHR ''/''"
  proof (intro allI impI)
    fix i assume i: "length pre < i \<and> i \<le> length (pre @ t) - 1"
    from assms(1) have "0 < length t" by simp
    with i have j: "i - length pre < length t" by auto
    from i have "(pre @ t) ! i = t ! (i - length pre)"
      by (simp add: nth_append)
    moreover from j have "t ! (i - length pre) \<in> set t" by (rule nth_mem)
    ultimately show "(pre @ t) ! i \<noteq> CHR ''/''"
      using assms(2) by metis
  qed
qed

lemma buf_Cons: "buf b (t # st) = (if st = [] then buf b [] @ t else buf b st @ ''/'' @ t)"
  by (cases st) simp_all

lemma nf_dots: "\<not> b \<Longrightarrow> \<forall>u\<in>set st. u = ''..'' \<Longrightarrow> nf b st"
  by (induction st) simp_all

lemma nf_tail: "nf b (t # st) \<Longrightarrow> nf b st"
  by (cases "t = ''..''") (simp_all add: nf_dots)

lemma nf_token: "nf b st \<Longrightarrow> u \<in> set st \<Longrightarrow> u \<noteq> [] \<and> CHR ''/'' \<notin> set u"
proof (induction st)
  case Nil
  then show ?case by simp
next
  case (Cons t st)
  show ?case
  proof (cases "t = ''..''")
    case True
    with Cons.prems have "u = ''..''" by auto
    then show ?thesis by simp
  next
    case False
    with Cons.prems have "normal t" and "nf b st" by simp_all
    with Cons.IH Cons.prems(2) show ?thesis by (auto simp: normal_def)
  qed
qed

lemma buf_rooted_length: "1 \<le> length (buf True st)"
  by (cases st) (simp_all add: buf_Cons)

lemma buf_length_mono: "length (buf b st) \<le> length (buf b (t # st))"
  by (simp add: buf_Cons)

lemma buf_grows:
  "t \<noteq> [] \<Longrightarrow> length (buf b st) < length (buf b (t # st))"
  by (simp add: buf_Cons)

lemma buf_empty_iff:
  "nf b st \<Longrightarrow> length (buf b st) = (if b then 1 else 0) \<longleftrightarrow> st = []"
proof (cases st)
  case Nil
  then show ?thesis by simp
next
  case (Cons t st')
  assume "nf b st"
  with Cons have "t \<noteq> []" using nf_token [of b st t] by simp
  from buf_grows [OF this, of b st'] have "length (buf b st') < length (buf b st)"
    by (simp add: Cons)
  moreover have "(if b then 1 else 0) \<le> length (buf b st')"
    using buf_rooted_length [of st'] by simp
  ultimately show ?thesis using Cons by auto
qed

lemma dotdot_of_le: "dotdot_of b st \<le> length (buf b st)"
proof (cases b)
  case True
  then show ?thesis using buf_rooted_length [of st] by (simp add: dotdot_of_def)
next
  case False
  have "length (buf False (dropWhile P st)) \<le> length (buf False st)" for P
  proof (induction st)
    case Nil
    show ?case by simp
  next
    case (Cons t st)
    then show ?case using buf_length_mono [of False st t] by auto
  qed
  with False show ?thesis by (simp add: dotdot_of_def)
qed

lemma dotdot_of_push: "t \<noteq> ''..'' \<Longrightarrow> dotdot_of b (t # st) = dotdot_of b st"
  by (simp add: dotdot_of_def)

lemma dotdot_of_dotdot: "dotdot_of False (''..'' # st) = length (buf False (''..'' # st))"
  by (simp add: dotdot_of_def)

lemma dotdot_of_Nil: "dotdot_of b [] = length (buf b [])"
  by (simp add: dotdot_of_def)

lemma nf_step:
  assumes "nf b st" and "t \<noteq> []" and "CHR ''/'' \<notin> set t"
  shows "nf b (clean_step b st t)"
proof -
  consider (dot) "t = ''.''" | (dotdot) "t = ''..''" | (name) "t \<noteq> ''.''" "t \<noteq> ''..''"
    by blast
  then show ?thesis
  proof cases
    case dot
    with assms(1) show ?thesis by (simp add: clean_step_def)
  next
    case name
    with assms show ?thesis by (simp add: clean_step_def normal_def)
  next
    case dotdot
    show ?thesis
    proof (cases st)
      case Nil
      then show ?thesis by (simp add: clean_step_def dotdot)
    next
      case (Cons x st')
      show ?thesis
      proof (cases "x = ''..''")
        case True
        with assms(1) Cons show ?thesis by (simp add: clean_step_def dotdot)
      next
        case False
        with assms(1) Cons show ?thesis by (simp add: clean_step_def dotdot)
      qed
    qed
  qed
qed

text \<open>One component of the input takes the loop from the buffer of a stack to the
  buffer of the next stack.\<close>

lemma clean_loop_step:
  assumes nf: "nf b st" and t: "t \<noteq> []" "CHR ''/'' \<notin> set t"
    and r: "r = [] \<or> hd r = CHR ''/''"
  shows "clean_loop b (t @ r) (buf b st) (dotdot_of b st) =
         clean_loop b r (buf b (clean_step b st t)) (dotdot_of b (clean_step b st t))"
proof -
  consider (dot) "t = ''.''" | (dotdot) "t = ''..''" | (name) "t \<noteq> ''.''" "t \<noteq> ''..''"
    by blast
  then show ?thesis
  proof cases
    case dot
    with r show ?thesis by (simp add: clean_loop_dot clean_step_def)
  next
    case name
    have e: "(b \<and> length (buf b st) \<noteq> 1 \<or> \<not> b \<and> length (buf b st) \<noteq> 0) \<longleftrightarrow> st \<noteq> []"
      using buf_empty_iff [OF nf] by (cases b) auto
    have "clean_loop b (t @ r) (buf b st) (dotdot_of b st) =
       clean_loop b r ((if st \<noteq> [] then buf b st @ ''/'' else buf b st) @ t) (dotdot_of b st)"
      by (simp only: clean_loop_token [OF t name r] e)
    also have "(if st \<noteq> [] then buf b st @ ''/'' else buf b st) @ t = buf b (t # st)"
      by (simp add: buf_Cons)
    finally show ?thesis using name by (simp add: clean_step_def dotdot_of_push)
  next
    case dotdot
    note cl = clean_loop_dotdot [OF r]
    have tr: "t @ r = CHR ''.'' # CHR ''.'' # r" by (simp add: dotdot)
    show ?thesis
    proof (cases st)
      case Nil
      show ?thesis
        by (simp add: tr cl Nil dotdot_of_def clean_step_def dotdot)
    next
      case (Cons x st')
      show ?thesis
      proof (cases "x = ''..''")
        case True
        with nf Cons have bF: "b = False" by simp
        have d: "dotdot_of False st = length (buf False st)" using True Cons by (simp add: dotdot_of_dotdot)
        from nf have "0 < length (buf False st)"
          using buf_empty_iff [of False st] Cons by (simp add: bF)
        then have "clean_loop False (CHR ''.'' # CHR ''.'' # r) (buf False st) (dotdot_of False st) =
            clean_loop False r (buf False st @ ''/'' @ ''..'') (length (buf False st @ ''/'' @ ''..''))"
          by (simp add: cl d)
        also have "buf False st @ ''/'' @ ''..'' = buf False (''..'' # st)"
          using Cons by (simp add: buf_Cons)
        finally show ?thesis
          using True Cons by (simp add: tr bF clean_step_def dotdot dotdot_of_dotdot)
      next
        case False
        with nf Cons have nx: "normal x" and nf': "nf b st'" by simp_all
        then have x: "x \<noteq> []" "CHR ''/'' \<notin> set x" by (simp_all add: normal_def)
        have d: "dotdot_of b st = dotdot_of b st'" using False Cons by (simp add: dotdot_of_push)
        have d': "dotdot_of b (x # st') = dotdot_of b st'" using False by (simp add: dotdot_of_push)
        have lt: "dotdot_of b st < length (buf b st)"
          using dotdot_of_le [of b st'] buf_grows [OF x(1), of b st'] by (simp add: Cons d')
        have bt: "take (backtrack (buf b st) (dotdot_of b st) (length (buf b st) - 1)) (buf b st) = buf b st'"
        proof (cases "st' = []")
          case True
          define pre where "pre = buf b []"
          have e1: "buf b st = pre @ x"
            unfolding pre_def Cons True by simp
          have e2: "dotdot_of b st = length pre"
            unfolding d pre_def True by (rule dotdot_of_Nil)
          have e3: "buf b st' = pre"
            unfolding pre_def True ..
          from backtrack_pop_first [OF x, of pre] show ?thesis
            unfolding e1 e2 e3 by simp
        next
          case False
          then have bs: "buf b st = buf b st' @ CHR ''/'' # x" by (simp add: Cons buf_Cons)
          from backtrack_pop_slash [OF x dotdot_of_le [of b st']] show ?thesis
            by (simp add: d bs)
        qed
        from lt bt have "clean_loop b (t @ r) (buf b st) (dotdot_of b st) =
            clean_loop b r (buf b st') (dotdot_of b st)"
          by (simp add: tr cl)
        then show ?thesis using False Cons by (simp add: clean_step_def dotdot d')
      qed
    qed
  qed
qed

lemma tokens_first:
  assumes "c \<noteq> CHR ''/''"
  shows "\<exists>t r. c # s = t @ r \<and> t \<noteq> [] \<and> CHR ''/'' \<notin> set t \<and> (r = [] \<or> hd r = CHR ''/'') \<and>
           tokens (c # s) = t # tokens r \<and> length r < length (c # s)"
proof (cases "CHR ''/'' \<in> set s")
  case False
  with assms have "CHR ''/'' \<notin> set (c # s)" by simp
  then have "tokens (c # s) = [c # s]"
    by (intro tokens_slashfree) (simp_all add: slashfree_def)
  with \<open>CHR ''/'' \<notin> set (c # s)\<close> show ?thesis
    by (intro exI [of _ "c # s"] exI [of _ "[]"]) simp
next
  case True
  then obtain a r where s: "s = a @ CHR ''/'' # r" and a: "CHR ''/'' \<notin> set a"
    by (meson split_list_first)
  let ?t = "c # a"
  from a assms have sf: "slashfree ?t" by (simp add: slashfree_def)
  have "tokens (?t @ CHR ''/'' # r) = ?t # tokens r"
    using tokens_append_slash [OF sf, of r] by simp
  then have "tokens (c # s) = ?t # tokens (CHR ''/'' # r)" by (simp add: s)
  moreover have "c # s = ?t @ (CHR ''/'' # r)" by (simp add: s)
  moreover have "length (CHR ''/'' # r) < length (c # s)" by (simp add: s)
  ultimately show ?thesis using sf
    by (intro exI [of _ ?t] exI [of _ "CHR ''/'' # r"]) (simp add: slashfree_def)
qed

text \<open>So the loop computes the buffer of the stack after all components.\<close>

lemma clean_loop_fold:
  "nf b st \<Longrightarrow>
   clean_loop b rest (buf b st) (dotdot_of b st) = buf b (foldl (clean_step b) st (tokens rest))"
proof (induction rest arbitrary: st rule: length_induct)
  case (1 rest)
  show ?case
  proof (cases rest)
    case Nil
    then show ?thesis by (simp add: clean_loop_Nil)
  next
    case (Cons c s)
    show ?thesis
    proof (cases "c = CHR ''/''")
      case True
      have "length s < length rest" by (simp add: Cons)
      with 1 have "clean_loop b s (buf b st) (dotdot_of b st) =
          buf b (foldl (clean_step b) st (tokens s))" by blast
      then show ?thesis by (simp add: Cons True clean_loop_slash)
    next
      case False
      from tokens_first [OF False, of s] obtain t r where
        tr: "c # s = t @ r" and t: "t \<noteq> []" "CHR ''/'' \<notin> set t"
        and r: "r = [] \<or> hd r = CHR ''/''" and tk: "tokens (c # s) = t # tokens r"
        and len: "length r < length (c # s)" by blast
      have nf': "nf b (clean_step b st t)" by (rule nf_step [OF 1(2) t])
      from len have "length r < length rest" by (simp add: Cons)
      with 1(1) nf' have ih: "clean_loop b r (buf b (clean_step b st t)) (dotdot_of b (clean_step b st t)) =
          buf b (foldl (clean_step b) (clean_step b st t) (tokens r))" by blast
      have "clean_loop b rest (buf b st) (dotdot_of b st) =
          clean_loop b r (buf b (clean_step b st t)) (dotdot_of b (clean_step b st t))"
        unfolding Cons tr by (rule clean_loop_step [OF 1(2) t r])
      with ih show ?thesis by (simp add: Cons tk)
    qed
  qed
qed

lemma nf_foldl:
  "nf b st \<Longrightarrow> \<forall>t\<in>set ts. t \<noteq> [] \<and> CHR ''/'' \<notin> set t \<Longrightarrow> nf b (foldl (clean_step b) st ts)"
  by (induction ts arbitrary: st) (simp_all add: nf_step)

lemma nf_norm_stack: "nf b (norm_stack b p)"
  unfolding norm_stack_def
  by (rule nf_foldl) (auto dest: tokens_all simp: slashfree_def)

text \<open>\<^verbatim>\<open>path.Clean\<close> in terms of components.\<close>

lemma Clean_render: "Clean p = render (rooted p) (norm_stack (rooted p) p)"
proof (cases p)
  case Nil
  then show ?thesis by (simp add: Clean_def render_def rooted_def norm_stack_def)
next
  case (Cons c s)
  show ?thesis
  proof (cases "c = CHR ''/''")
    case True
    then have r: "rooted p" by (simp add: rooted_def Cons)
    have "clean_loop True s (buf True []) (dotdot_of True []) =
        buf True (foldl (clean_step True) [] (tokens s))"
      by (rule clean_loop_fold) simp
    moreover have "tokens p = tokens s" by (simp add: Cons True)
    moreover have "buf True [] = ''/''" "dotdot_of True [] = 1" by (simp_all add: dotdot_of_def)
    ultimately have "clean_loop True s ''/'' 1 = buf True (norm_stack True p)"
      by (simp add: norm_stack_def)
    moreover have "buf True (norm_stack True p) \<noteq> []"
      using buf_rooted_length [of "norm_stack True p"] by auto
    ultimately show ?thesis
      using r by (simp add: Clean_def Cons True render_def Let_def)
  next
    case False
    then have r: "\<not> rooted p" by (simp add: rooted_def Cons)
    have "clean_loop False p (buf False []) (dotdot_of False []) =
        buf False (foldl (clean_step False) [] (tokens p))"
      by (rule clean_loop_fold) simp
    moreover have "buf False [] = []" "dotdot_of False [] = 0" by (simp_all add: dotdot_of_def)
    ultimately have cl: "clean_loop False p [] 0 = buf False (norm_stack False p)"
      by (simp add: norm_stack_def)
    have "length (buf False (norm_stack False p)) = 0 \<longleftrightarrow> norm_stack False p = []"
      using buf_empty_iff [OF nf_norm_stack, of False p] by simp
    with cl show ?thesis
      using r False by (simp add: Clean_def Cons render_def Let_def)
  qed
qed

lemma buf_nonempty: "nf b st \<Longrightarrow> st \<noteq> [] \<Longrightarrow> buf b st \<noteq> []"
proof (cases st)
  case Nil
  assume "st \<noteq> []"
  with Nil show ?thesis by simp
next
  case (Cons t st')
  assume "nf b st"
  with Cons have "t \<noteq> []" using nf_token [of b st t] by simp
  with Cons show ?thesis by (simp add: buf_Cons)
qed

lemma tokens_buf: "nf b st \<Longrightarrow> tokens (buf b st) = rev st"
proof (induction st)
  case Nil
  show ?case by simp
next
  case (Cons t st)
  from Cons.prems have t: "t \<noteq> []" "CHR ''/'' \<notin> set t"
    using nf_token [of b "t # st" t] by simp_all
  then have tt: "tokens t = [t]" by (simp add: tokens_slashfree slashfree_def)
  from Cons.prems have "nf b st" by (rule nf_tail)
  with Cons.IH have ih: "tokens (buf b st) = rev st" by simp
  show ?case
  proof (cases "st = []")
    case True
    then show ?thesis using tt by (cases b) simp_all
  next
    case False
    then have "buf b (t # st) = buf b st @ CHR ''/'' # t" by (simp add: buf_Cons)
    then show ?thesis by (simp add: tokens_append ih tt)
  qed
qed

lemma hd_buf_unrooted: "nf False st \<Longrightarrow> st \<noteq> [] \<Longrightarrow> hd (buf False st) \<noteq> CHR ''/''"
proof (induction st)
  case Nil
  then show ?case by simp
next
  case (Cons t st)
  from Cons.prems have t: "t \<noteq> []" "CHR ''/'' \<notin> set t"
    using nf_token [of False "t # st" t] by simp_all
  from Cons.prems(1) have n: "nf False st" by (rule nf_tail)
  show ?case
  proof (cases "st = []")
    case True
    with t show ?thesis by (cases t) auto
  next
    case False
    with n have "buf False st \<noteq> []" by (rule buf_nonempty)
    then have "hd (buf False (t # st)) = hd (buf False st)" using False by (simp add: buf_Cons)
    with Cons.IH [OF n False] show ?thesis by simp
  qed
qed

lemma rooted_buf: "nf b st \<Longrightarrow> rooted (buf b st @ s) \<longleftrightarrow> b \<or> (st = [] \<and> rooted s)"
proof (cases b)
  case True
  have "buf True st \<noteq> [] \<and> hd (buf True st) = CHR ''/''"
    by (induction st) (simp_all add: buf_Cons)
  with True show ?thesis by (simp add: rooted_def)
next
  case False
  assume n: "nf b st"
  show ?thesis
  proof (cases "st = []")
    case True
    with False show ?thesis by simp
  next
    case ne: False
    from n False have "buf False st \<noteq> []" "hd (buf False st) \<noteq> CHR ''/''"
      using buf_nonempty [of False st] hd_buf_unrooted [of st] ne by simp_all
    with False ne show ?thesis by (simp add: rooted_def)
  qed
qed

lemma rooted_render: "nf b st \<Longrightarrow> rooted (render b st @ s) \<longleftrightarrow> b"
proof (cases "\<not> b \<and> st = []")
  case True
  then show ?thesis by (simp add: render_def rooted_def)
next
  case False
  assume "nf b st"
  from rooted_buf [OF this, of s] False show ?thesis by (auto simp: render_def)
qed

lemma foldl_nf: "nf b (st2 @ st1) \<Longrightarrow> foldl (clean_step b) st1 (rev st2) = st2 @ st1"
proof (induction st2)
  case Nil
  show ?case by simp
next
  case (Cons t st2)
  from Cons.prems have n: "nf b (st2 @ st1)" using nf_tail [of b t "st2 @ st1"] by simp
  with Cons.IH have ih: "foldl (clean_step b) st1 (rev st2) = st2 @ st1" by simp
  have "clean_step b (st2 @ st1) t = t # st2 @ st1"
  proof (cases "t = ''..''")
    case True
    with Cons.prems have a: "\<not> b" "\<forall>u\<in>set (st2 @ st1). u = ''..''" by simp_all
    show ?thesis
    proof (cases "st2 @ st1")
      case Nil
      with a True show ?thesis by (simp add: clean_step_def)
    next
      case (Cons x xs)
      with a have "x = ''..''" by simp
      with Cons True show ?thesis by (simp add: clean_step_def)
    qed
  next
    case False
    with Cons.prems have "normal t" by simp
    then show ?thesis by (simp add: clean_step_def normal_def)
  qed
  with ih show ?case by simp
qed

lemma norm_stack_buf: "nf b st \<Longrightarrow> norm_stack b (buf b st) = st"
  using foldl_nf [of b st "[]"] by (simp add: norm_stack_def tokens_buf)

lemma norm_stack_buf_slash: "nf b st \<Longrightarrow> norm_stack b (buf b st @ ''/'') = st"
  using foldl_nf [of b st "[]"] by (simp add: norm_stack_def tokens_buf)

lemma norm_stack_render: "nf b st \<Longrightarrow> norm_stack b (render b st) = st"
proof (cases "\<not> b \<and> st = []")
  case True
  have "tokens ''.'' = [''.'']" by (simp add: tokens_slashfree slashfree_def)
  with True show ?thesis by (simp add: render_def norm_stack_def clean_step_def)
next
  case False
  assume "nf b st"
  with False show ?thesis by (auto simp: render_def norm_stack_buf)
qed

lemma Clean_clean: "nf b st \<Longrightarrow> Clean (render b st) = render b st"
  using rooted_render [of b st "[]"] by (simp add: Clean_render norm_stack_render)

lemma Clean_idem: "Clean (Clean p) = Clean p"
  by (simp add: Clean_render [of p] Clean_clean nf_norm_stack)

lemma render_nonempty: "nf b st \<Longrightarrow> render b st \<noteq> []"
  using buf_nonempty [of b st] by (cases "st = []") (simp_all add: render_def)

lemma Clean_nonempty: "Clean p \<noteq> []"
  by (simp add: Clean_render render_nonempty nf_norm_stack)

lemma last_index_from_skip:
  "CHR ''/'' \<notin> set t \<Longrightarrow> k \<le> length t \<Longrightarrow>
   last_index_from (pre @ t) (CHR ''/'') (length pre + k) =
   last_index_from (pre @ t) (CHR ''/'') (length pre)"
proof (induction k)
  case 0
  show ?case by simp
next
  case (Suc k)
  then have "k < length t" by simp
  then have "(pre @ t) ! (length pre + k) = t ! k" and "t ! k \<in> set t"
    by (simp_all add: nth_append)
  with Suc.prems(1) have "(pre @ t) ! (length pre + k) \<noteq> CHR ''/''" by metis
  with Suc show ?case by simp
qed

lemma last_index_from_prefix:
  "pre = [] \<or> last pre = CHR ''/'' \<Longrightarrow>
   nat (last_index_from (pre @ t) (CHR ''/'') (length pre) + 1) = length pre"
proof (cases pre rule: rev_cases)
  case Nil
  then show ?thesis by simp
next
  case (snoc ys y)
  assume "pre = [] \<or> last pre = CHR ''/''"
  with snoc have "y = CHR ''/''" by simp
  with snoc show ?thesis by (simp add: nth_append)
qed

lemma Split_token:
  assumes "CHR ''/'' \<notin> set t" and "pre = [] \<or> last pre = CHR ''/''"
  shows "Split (pre @ t) = (pre, t)"
proof -
  have "LastIndexByte (pre @ t) (CHR ''/'') = last_index_from (pre @ t) (CHR ''/'') (length pre)"
    using last_index_from_skip [OF assms(1), of "length t" pre] by (simp add: LastIndexByte_def)
  with last_index_from_prefix [OF assms(2), of t] show ?thesis
    by (simp add: Split_def Let_def)
qed

lemma LastIndexByte_token:
  assumes "CHR ''/'' \<notin> set t" and "pre = [] \<or> last pre = CHR ''/''"
  shows "LastIndexByte (pre @ t) (CHR ''/'') = int (length pre) - 1"
proof -
  have e: "LastIndexByte (pre @ t) (CHR ''/'') = last_index_from (pre @ t) (CHR ''/'') (length pre)"
    using last_index_from_skip [OF assms(1), of "length t" pre] by (simp add: LastIndexByte_def)
  show ?thesis
  proof (cases pre rule: rev_cases)
    case Nil
    with e show ?thesis by simp
  next
    case (snoc ys y)
    with assms(2) have "y = CHR ''/''" by simp
    with snoc e show ?thesis by (simp add: nth_append)
  qed
qed

lemma buf_split:
  "buf b (t # st) = (if st = [] then buf b [] else buf b st @ ''/'') @ t"
  by (simp add: buf_Cons)

lemma buf_prefix_ends:
  "(if st = [] then buf b [] else buf b st @ ''/'') = [] \<or>
   last (if st = [] then buf b [] else buf b st @ ''/'') = CHR ''/''"
  by simp

lemma Clean_buf_prefix:
  assumes "nf b st"
  shows "Clean (if st = [] then buf b [] else buf b st @ ''/'') = render b st"
proof (cases "st = []")
  case True
  have "Clean ''/'' = ''/''" "Clean [] = ''.''" by code_simp+
  with True show ?thesis by (cases b) (simp_all add: render_def)
next
  case False
  from rooted_buf [OF assms, of "''/''"] False have r: "rooted (buf b st @ ''/'') = b"
    by simp
  from False show ?thesis
    by (simp add: Clean_render r norm_stack_buf_slash [OF assms])
qed

text \<open>On a clean path with a last component, \<^verbatim>\<open>path.Dir\<close> drops the component and
  \<^verbatim>\<open>path.Base\<close> returns it.\<close>

lemma Dir_render: "nf b (t # st) \<Longrightarrow> Dir (render b (t # st)) = render b st"
proof -
  assume n: "nf b (t # st)"
  then have t: "CHR ''/'' \<notin> set t" using nf_token [of b "t # st" t] by simp
  from n have n': "nf b st" by (rule nf_tail)
  have "render b (t # st) = (if st = [] then buf b [] else buf b st @ ''/'') @ t"
    by (simp add: render_def buf_Cons)
  then have "fst (Split (render b (t # st))) = (if st = [] then buf b [] else buf b st @ ''/'')"
    using Split_token [OF t buf_prefix_ends [of st b]] by simp
  then show ?thesis by (simp add: Dir_def Clean_buf_prefix [OF n'])
qed

lemma strip_trailing_slashes_id:
  "p = [] \<or> last p \<noteq> CHR ''/'' \<Longrightarrow> strip_trailing_slashes p = p"
  by (subst strip_trailing_slashes.simps) (auto simp: last_conv_nth)

lemma Base_render: "nf b (t # st) \<Longrightarrow> Base (render b (t # st)) = t"
proof -
  assume n: "nf b (t # st)"
  then have t: "CHR ''/'' \<notin> set t" "t \<noteq> []" using nf_token [of b "t # st" t] by simp_all
  let ?pre = "if st = [] then buf b [] else buf b st @ ''/''"
  have x: "render b (t # st) = ?pre @ t"
    by (simp add: render_def buf_Cons)
  from t have "last (?pre @ t) \<noteq> CHR ''/''" by (metis last_appendR last_in_set)
  then have s: "strip_trailing_slashes (?pre @ t) = ?pre @ t"
    by (intro strip_trailing_slashes_id) simp
  have i: "LastIndexByte (?pre @ t) (CHR ''/'') = int (length ?pre) - 1"
    by (rule LastIndexByte_token [OF t(1) buf_prefix_ends])
  have "Base (?pre @ t) = t"
  proof (cases "?pre = []")
    case True
    with t(2) i s show ?thesis by (simp add: Base_def Let_def)
  next
    case False
    then have "0 < length ?pre" by simp
    with t(2) i s show ?thesis by (simp add: Base_def Let_def del: length_greater_0_conv)
  qed
  with x show ?thesis by simp
qed

lemma Dir_fixed: "Dir ''.'' = ''.''" "Dir ''/'' = ''/''"
  by code_simp+

lemma nf_bottom: "nf b (st2 @ st1) \<Longrightarrow> nf b st1"
proof (induction st2)
  case Nil
  then show ?case by simp
next
  case (Cons t st2)
  from Cons.prems have "nf b (st2 @ st1)" using nf_tail [of b t "st2 @ st1"] by simp
  then show ?case by (rule Cons.IH)
qed

lemma nf_top: "nf b (st2 @ st1) \<Longrightarrow> nf False st2"
proof (induction st2)
  case Nil
  show ?case by simp
next
  case (Cons t st2)
  from Cons.prems have "nf b (st2 @ st1)" using nf_tail [of b t "st2 @ st1"] by simp
  with Cons.IH have ih: "nf False st2" by simp
  show ?case
  proof (cases "t = ''..''")
    case True
    with Cons.prems show ?thesis by simp
  next
    case False
    with Cons.prems ih show ?thesis by simp
  qed
qed

lemma join_buf_tokens:
  "\<forall>t\<in>set ts \<union> set st0. t \<noteq> [] \<Longrightarrow>
   join_buf (buf False st0) ts = buf False (rev ts @ st0)"
proof (induction ts arbitrary: st0)
  case Nil
  show ?case by simp
next
  case (Cons t ts)
  then have t: "t \<noteq> []" by simp
  have "(if length (buf False st0) > 0 then buf False st0 @ ''/'' else buf False st0) @ t =
      buf False (t # st0)"
  proof (cases st0)
    case Nil
    then show ?thesis by simp
  next
    case (Cons u us)
    with Cons.prems have "u \<noteq> []" by simp
    then have "buf False (u # us) \<noteq> []" by (simp add: buf_Cons)
    with Cons show ?thesis by simp
  qed
  moreover have "join_buf (buf False (t # st0)) ts = buf False (rev ts @ t # st0)"
    by (rule Cons.IH) (use Cons.prems in auto)
  ultimately show ?case using t by simp
qed

lemma Join_tokens: "nf False st \<Longrightarrow> st \<noteq> [] \<Longrightarrow> Join (rev st) = render False st"
proof -
  assume n: "nf False st" and ne: "st \<noteq> []"
  then have all: "\<forall>t\<in>set st. t \<noteq> []" using nf_token [of False st] by blast
  from ne obtain t where "t \<in> set st" by (cases st) auto
  with all have "t \<noteq> []" by simp
  with \<open>t \<in> set st\<close> have "sum_list (map length (rev st)) \<noteq> 0"
    by auto
  moreover have "join_buf [] (rev st) = buf False st"
    using join_buf_tokens [of "rev st" "[]"] all by simp
  moreover have "Clean (buf False st) = render False st"
    using Clean_clean [OF n] ne by (simp add: render_def)
  ultimately show ?thesis by (auto simp: Join_def)
qed

lemma Join_single_clean: "nf b st \<Longrightarrow> Join [render b st] = render b st"
  using render_nonempty [of b st] by (simp add: Join_def Clean_clean)

lemma Join_single_empty: "Join [[]] = []"
  by (simp add: Join_def)

lemma Join_root_empty: "nf b st \<Longrightarrow> Join [render b st, []] = render b st"
proof -
  assume n: "nf b st"
  then have ne: "render b st \<noteq> []" by (rule render_nonempty)
  have "Clean (render b st @ ''/'') = render b st"
  proof -
    have "norm_stack b (render b st @ ''/'') = norm_stack b (render b st)"
      by (simp add: norm_stack_def)
    then show ?thesis
      using rooted_render [OF n, of "''/''"] by (simp add: Clean_render norm_stack_render [OF n])
  qed
  with ne show ?thesis by (simp add: Join_def)
qed

lemma Join_root_rel:
  assumes n: "nf b (st2 @ st1)" and ne: "st2 \<noteq> []"
  shows "Join [render b st1, render False st2] = render b (st2 @ st1)"
proof -
  from n have n1: "nf b st1" by (rule nf_bottom)
  from n have n2: "nf False st2" by (rule nf_top)
  have x: "render b st1 \<noteq> []" by (rule render_nonempty [OF n1])
  have y: "render False st2 = buf False st2" using ne by (simp add: render_def)
  have jb: "join_buf [] [render b st1, render False st2] = render b st1 @ CHR ''/'' # buf False st2"
    using x by (simp add: y)
  have tk: "tokens (render b st1 @ CHR ''/'' # buf False st2) = tokens (render b st1) @ rev st2"
    by (simp add: tokens_append tokens_buf [OF n2])
  have "norm_stack b (render b st1 @ CHR ''/'' # buf False st2) =
      foldl (clean_step b) (norm_stack b (render b st1)) (rev st2)"
    by (simp add: norm_stack_def tk)
  also have "\<dots> = st2 @ st1"
    by (simp add: norm_stack_render [OF n1] foldl_nf [OF n])
  finally have ns: "norm_stack b (render b st1 @ CHR ''/'' # buf False st2) = st2 @ st1" .
  have r: "rooted (render b st1 @ CHR ''/'' # buf False st2) = b"
    by (rule rooted_render [OF n1])
  have "Clean (render b st1 @ CHR ''/'' # buf False st2) = render b (st2 @ st1)"
    by (simp add: Clean_render r ns)
  with x jb show ?thesis by (simp add: Join_def)
qed

text \<open>Joining a clean path cut in two gives the path back.\<close>

lemma RootDir_Join_rel:
  assumes n: "nf b (st2 @ st1)"
  shows "RootDir_Join (render b st1) [Join (rev st2)] = render b (st2 @ st1)"
proof (cases "st2 = []")
  case True
  with n have "nf b st1" by simp
  then show ?thesis
    by (simp add: True RootDir_Join_def Join_single_empty Join_root_empty Join_def [of "[]"])
next
  case False
  from n have n2: "nf False st2" by (rule nf_top)
  have "Join (rev st2) = render False st2" by (rule Join_tokens [OF n2 False])
  then show ?thesis
    by (simp add: RootDir_Join_def Join_single_clean [OF n2] Join_root_rel [OF n False])
qed

section \<open>The relative path joins back to the cleaned input\<close>

lemma render_Nil_cases: "render b [] = (if b then ''/'' else ''.'')"
  by (simp add: render_def)

text \<open>What \<^verbatim>\<open>findRelPath\<close> returns from a clean pathname that has been stat-ed on the
  device looked for: a lower part of the stack as root, and the components above
  it, in order, as relative path.  The root is never \<^verbatim>\<open>.\<close>, where the walk
  would not stop.\<close>

lemma findRelPath_clean:
  assumes "nf b (st2 @ st1)"
    and "os_Lstat w (render b st1) = Inr fi0" and "rootDevice fi0 = Returns dev"
    and "findRelPath w dev (render b st1) (rev st2) = Some (Returns (r, s))" and "r \<noteq> []"
  shows "\<exists>st1' st2'. st2' @ st1' = st2 @ st1 \<and> r = render b st1' \<and> s = Join (rev st2') \<and>
           (b \<or> st1' \<noteq> [])"
  using assms
proof (induction st1 arbitrary: st2 fi0)
  case Nil
  let ?x = "render b []"
  show ?case
  proof (cases b)
    case True
    then have x: "?x = ''/''" by (simp add: render_def)
    show ?thesis
    proof (cases "os_Lstat w (Dir ?x)")
      case (Inl err)
      from findRelPath_lstat_fails [OF Inl] Nil.prems(4,5) show ?thesis by simp
    next
      case (Inr fi)
      show ?thesis
      proof (cases "rootDevice fi")
        case (Panics pn)
        from findRelPath_panic [OF Inr Panics] Nil.prems(4) show ?thesis by simp
      next
        case (Returns d)
        from findRelPath_boundary [OF Inr Returns, of dev "rev st2"] x Nil.prems(4,5)
        have "r = ?x \<and> s = Join (rev st2)" by (simp split: if_splits)
        with True show ?thesis by auto
      qed
    qed
  next
    case False
    then have x: "?x = ''.''" by (simp add: render_def)
    have fp: "Dir ?x = ?x" "?x \<noteq> ''/''" by (simp_all add: x Dir_fixed)
    from findRelPath_fixed_point_diverges [OF fp Nil.prems(2,3)] Nil.prems(4)
    show ?thesis by simp
  qed
next
  case (Cons t st1)
  let ?x = "render b (t # st1)"
  from Cons.prems(1) have n: "nf b (t # st1)" by (rule nf_bottom)
  have dir: "Dir ?x = render b st1" by (rule Dir_render [OF n])
  have base: "Base ?x = t" by (rule Base_render [OF n])
  show ?case
  proof (cases "os_Lstat w (Dir ?x)")
    case (Inl err)
    from findRelPath_lstat_fails [OF Inl] Cons.prems(4,5) show ?thesis by simp
  next
    case (Inr fi)
    show ?thesis
    proof (cases "rootDevice fi")
      case (Panics pn)
      from findRelPath_panic [OF Inr Panics] Cons.prems(4) show ?thesis by simp
    next
      case (Returns d)
      show ?thesis
      proof (cases "d \<noteq> dev \<or> ?x = ''/''")
        case True
        from findRelPath_boundary [OF Inr Returns True, of "rev st2"] Cons.prems(4,5)
        have "r = ?x \<and> s = Join (rev st2)" by (simp split: if_splits)
        then show ?thesis by auto
      next
        case False
        then have d: "rootDevice fi = Returns dev" and nr: "?x \<noteq> ''/''"
          using Returns by simp_all
        from findRelPath_step [OF Inr d nr, of "rev st2"] Cons.prems(4)
        have rec: "findRelPath w dev (render b st1) (rev (st2 @ [t])) = Some (Returns (r, s))"
          by (simp add: dir base)
        from Cons.prems(1) have n': "nf b ((st2 @ [t]) @ st1)" by simp
        from Inr have l: "os_Lstat w (render b st1) = Inr fi" by (simp add: dir)
        from Cons.IH [OF n' l d rec Cons.prems(5)] show ?thesis by simp
      qed
    qed
  qed
qed

lemma tokens_render: "nf b st \<Longrightarrow> b \<or> st \<noteq> [] \<Longrightarrow> tokens (render b st) = rev st"
  by (auto simp: render_def tokens_buf)

lemma tokens_Join_rev: "nf False st \<Longrightarrow> tokens (Join (rev st)) = rev st"
proof (cases "st = []")
  case True
  then show ?thesis by (simp add: Join_def)
next
  case False
  assume n: "nf False st"
  with False show ?thesis by (simp add: Join_tokens tokens_render)
qed

lemma Dir_nonempty: "Dir p \<noteq> []"
  by (simp add: Dir_def Clean_nonempty)

lemma walk_nonempty: "walk_reaches w dev p x \<Longrightarrow> p \<noteq> [] \<Longrightarrow> x \<noteq> []"
  by (induction rule: walk_reaches.induct) (simp_all add: Dir_nonempty)

text \<open>Whenever \<^verbatim>\<open>MountRelPath(p)\<close> returns a root and a relative path without error,
  \<^verbatim>\<open>root.Join(rel)\<close> is \<^verbatim>\<open>filepath.Clean(p)\<close>, and the components of the cleaned
  path are those of the root followed by those of the relative path, in order.\<close>

lemma MountRelPath_returns_join:
  assumes "MountRelPath w p = Some (Returns (root, rel, None))"
  shows "RootDir_Join root [rel] = filepath_Clean p \<and>
         tokens (filepath_Clean p) = tokens root @ tokens rel"
proof -
  define b where "b = rooted p"
  define S where "S = norm_stack b p"
  have n: "nf b S" unfolding S_def by (rule nf_norm_stack)
  have c: "filepath_Clean p = render b S"
    by (simp add: filepath_Clean_def Clean_render b_def S_def)
  from assms obtain fi where l: "os_Lstat w (render b S) = Inr fi"
    by (cases "os_Lstat w (render b S)") (simp_all add: MountRelPath_def Let_def c)
  from assms l obtain dev where d: "rootDevice fi = Returns dev"
    by (cases "rootDevice fi") (simp_all add: MountRelPath_def Let_def c)
  from assms l d have f: "findRelPath w dev (render b S) (rev []) = Some (Returns (root, rel))"
    and ne: "root \<noteq> []"
    by (auto simp: MountRelPath_def Let_def c split: option.splits run.splits if_splits)
  from n have n0: "nf b ([] @ S)" by simp
  from findRelPath_clean [OF n0 l d f ne] obtain st1 st2 where
    dec: "st2 @ st1 = S" and r: "root = render b st1" and s: "rel = Join (rev st2)"
    and nd: "b \<or> st1 \<noteq> []" by auto
  from n dec have n': "nf b (st2 @ st1)" by simp
  have j: "RootDir_Join root [rel] = render b S"
    unfolding r s using RootDir_Join_rel [OF n'] by (simp add: dec)
  have "b \<or> S \<noteq> []" using nd dec by auto
  then have "tokens (render b S) = rev S" by (rule tokens_render [OF n])
  moreover have "tokens root = rev st1"
    unfolding r by (rule tokens_render [OF nf_bottom [OF n'] nd])
  moreover have "tokens rel = rev st2"
    unfolding s by (rule tokens_Join_rev [OF nf_top [OF n']])
  ultimately have "tokens (render b S) = tokens root @ tokens rel"
    using dec by auto
  with j show ?thesis by (simp add: c)
qed

text \<open>It returns them when the walk from the cleaned path stops at a pathname that
  carries the sentinel.\<close>

lemma MountRelPath_reaches_root:
  assumes "os_Lstat w (filepath_Clean p) = Inr fi" and "rootDevice fi = Returns dev"
    and "walk_reaches w dev (filepath_Clean p) x"
    and "os_Lstat w (Dir x) = Inr fi'" and "rootDevice fi' = Returns d"
    and "d \<noteq> dev \<or> x = ''/''" and "isDotLustre w (Join [x, ''.lustre''])"
  shows "\<exists>rel. MountRelPath w p = Some (Returns (x, rel, None))"
proof -
  from walk_findRelPath [OF assms(3), of "[]"] obtain rel' where
    "findRelPath w dev (filepath_Clean p) [] = findRelPath w dev x rel'" by blast
  with findRelPath_boundary [OF assms(4,5,6), of rel'] assms(7)
  have f: "findRelPath w dev (filepath_Clean p) [] = Some (Returns (x, Join rel'))" by simp
  have "filepath_Clean p \<noteq> []" by (simp add: filepath_Clean_def Clean_nonempty)
  with assms(3) have "x \<noteq> []" by (rule walk_nonempty)
  with f assms(1,2) show ?thesis by (simp add: MountRelPath_def Let_def)
qed

lemma demo_paths:
  "filepath_Clean ''/mnt/fs/a//b/./c'' = ''/mnt/fs/a/b/c''"
  "Dir ''/mnt/fs/a/b/c'' = ''/mnt/fs/a/b''" "Base ''/mnt/fs/a/b/c'' = ''c''"
  "Dir ''/mnt/fs/a/b'' = ''/mnt/fs/a''" "Base ''/mnt/fs/a/b'' = ''b''"
  "Dir ''/mnt/fs/a'' = ''/mnt/fs''" "Base ''/mnt/fs/a'' = ''a''"
  "Dir ''/mnt/fs'' = ''/mnt''"
  "Join [''/mnt/fs'', ''.lustre''] = ''/mnt/fs/.lustre''"
  "Join [''a'', ''b'', ''c''] = ''a/b/c''"
  unfolding filepath_Clean_def by code_simp+

lemma demo_lstat_more:
  "os_Lstat demo_world ''/mnt/fs/a/b'' = Inr (dir_on 2)"
  "os_Lstat demo_world ''/mnt/fs'' = Inr (dir_on 2)"
  "os_Lstat demo_world ''/mnt'' = Inr (dir_on 1)"
  by (simp_all add: demo_world_def lookup_in_def)

lemma demo_sentinel: "isDotLustre demo_world ''/mnt/fs/.lustre''"
  by (simp add: isDotLustre_def dir_on_def) (simp add: demo_world_def lookup_in_def)

lemma demo_walk: "walk_reaches demo_world 2 ''/mnt/fs/a/b/c'' ''/mnt/fs''"
proof -
  have "walk_reaches demo_world 2 ''/mnt/fs/a/b/c'' ''/mnt/fs/a/b''"
    using walk_reaches.step [OF walk_reaches.start, of demo_world "''/mnt/fs/a/b/c''" "dir_on 2" 2]
    by (simp add: demo_paths demo_lstat_more)
  then have "walk_reaches demo_world 2 ''/mnt/fs/a/b/c'' ''/mnt/fs/a''"
    using walk_reaches.step [of demo_world 2 "''/mnt/fs/a/b/c''" "''/mnt/fs/a/b''" "dir_on 2"]
    by (simp add: demo_paths)
  then show ?thesis
    using walk_reaches.step [of demo_world 2 "''/mnt/fs/a/b/c''" "''/mnt/fs/a''" "dir_on 2"]
    by (simp add: demo_paths demo_lstat_more)
qed

lemma demo_findRelPath:
  "findRelPath demo_world 2 ''/mnt/fs/a/b/c'' [] = Some (Returns (''/mnt/fs'', ''a/b/c''))"
proof -
  have "findRelPath demo_world 2 ''/mnt/fs/a/b/c'' [] =
      findRelPath demo_world 2 ''/mnt/fs/a/b'' [''c'']"
    using findRelPath_step [of demo_world "''/mnt/fs/a/b/c''" "dir_on 2" 2 "[]"]
    by (simp add: demo_paths demo_lstat_more)
  also have "\<dots> = findRelPath demo_world 2 ''/mnt/fs/a'' [''b'', ''c'']"
    using findRelPath_step [of demo_world "''/mnt/fs/a/b''" "dir_on 2" 2 "[''c'']"]
    by (simp add: demo_paths)
  also have "\<dots> = findRelPath demo_world 2 ''/mnt/fs'' [''a'', ''b'', ''c'']"
    using findRelPath_step [of demo_world "''/mnt/fs/a''" "dir_on 2" 2 "[''b'', ''c'']"]
    by (simp add: demo_paths demo_lstat_more)
  also have "\<dots> = Some (Returns (''/mnt/fs'', ''a/b/c''))"
    using findRelPath_boundary [of demo_world "''/mnt/fs''" "dir_on 1" 1 2 "[''a'', ''b'', ''c'']"]
    by (simp add: demo_paths demo_lstat_more demo_sentinel)
  finally show ?thesis .
qed

lemma demo_MountRelPath:
  "MountRelPath demo_world ''/mnt/fs/a//b/./c'' = Some (Returns (''/mnt/fs'', ''a/b/c'', None))"
  by (simp add: MountRelPath_def demo_paths demo_findRelPath)

lemma cwd_paths:
  "filepath_Clean ''b'' = ''b''" "Dir ''b'' = ''.''" "Dir ''.'' = ''.''" "Base ''b'' = ''b''"
  "filepath_Clean ''/mnt/fs/a/b'' = ''/mnt/fs/a/b''"
  "Join [''a'', ''b''] = ''a/b''"
  unfolding filepath_Clean_def by code_simp+

lemma cwd_lstat:
  "os_Lstat cwd_world ''b'' = Inr (file_on 2)" "os_Lstat cwd_world ''.'' = Inr (dir_on 2)"
  "os_Lstat cwd_world ''/mnt/fs/a/b'' = Inr (file_on 2)"
  "os_Lstat cwd_world ''/mnt/fs/a'' = Inr (dir_on 2)"
  "os_Lstat cwd_world ''/mnt/fs'' = Inr (dir_on 2)"
  "os_Lstat cwd_world ''/mnt'' = Inr (dir_on 1)"
  by (simp_all add: cwd_world_def lookup_in_def)

text \<open>
  Claim C3 fails on the code.  The file \<^verbatim>\<open>/mnt/fs/a/b\<close> is on the Lustre filesystem
  mounted at \<^verbatim>\<open>/mnt/fs\<close>; by its absolute name \<^verbatim>\<open>MountRelPath\<close> returns the root
  \<^verbatim>\<open>/mnt/fs\<close> and the relative path \<^verbatim>\<open>a/b\<close>.  From the working directory
  \<^verbatim>\<open>/mnt/fs/a\<close> the same file is \<^verbatim>\<open>b\<close>: the walk climbs to \<^verbatim>\<open>.\<close>, whose \<^verbatim>\<open>path.Dir\<close>
  is \<^verbatim>\<open>.\<close> again on the same device, and \<^verbatim>\<open>MountRelPath("b")\<close> never returns, so it
  returns no root and no relative path to join.
\<close>

theorem MountRelPath_relative_never_returns:
  "os_Lstat cwd_world ''/mnt/fs/a/b'' = Inr (file_on 2) \<and>
   MountRelPath cwd_world ''/mnt/fs/a/b'' = Some (Returns (''/mnt/fs'', ''a/b'', None)) \<and>
   os_Lstat cwd_world ''.'' = os_Lstat cwd_world ''/mnt/fs/a'' \<and>
   os_Lstat cwd_world ''b'' = os_Lstat cwd_world ''/mnt/fs/a/b'' \<and>
   filepath_Clean ''b'' = ''b'' \<and> Dir ''b'' = ''.'' \<and> Dir ''.'' = ''.'' \<and>
   findRelPath cwd_world 2 ''.'' [''b''] = None \<and>
   MountRelPath cwd_world ''b'' = None"
proof -
  have s: "isDotLustre cwd_world ''/mnt/fs/.lustre''"
    by (simp add: isDotLustre_def dir_on_def) (simp add: cwd_world_def demo_world_def lookup_in_def dir_on_def)
  have "findRelPath cwd_world 2 ''/mnt/fs/a/b'' [] = findRelPath cwd_world 2 ''/mnt/fs/a'' [''b'']"
    using findRelPath_step [of cwd_world "''/mnt/fs/a/b''" "dir_on 2" 2 "[]"]
    by (simp add: demo_paths cwd_lstat)
  also have "\<dots> = findRelPath cwd_world 2 ''/mnt/fs'' [''a'', ''b'']"
    using findRelPath_step [of cwd_world "''/mnt/fs/a''" "dir_on 2" 2 "[''b'']"]
    by (simp add: demo_paths cwd_lstat)
  also have "\<dots> = Some (Returns (''/mnt/fs'', ''a/b''))"
    using findRelPath_boundary [of cwd_world "''/mnt/fs''" "dir_on 1" 1 2 "[''a'', ''b'']"]
    by (simp add: demo_paths cwd_lstat cwd_paths s)
  finally have a: "MountRelPath cwd_world ''/mnt/fs/a/b'' =
      Some (Returns (''/mnt/fs'', ''a/b'', None))"
    by (simp add: MountRelPath_def cwd_paths cwd_lstat)
  have d: "\<And>rel. findRelPath cwd_world 2 ''.'' rel = None"
    by (rule findRelPath_fixed_point_diverges [where fi = "dir_on 2"])
       (simp_all add: cwd_paths cwd_lstat)
  have "findRelPath cwd_world 2 ''b'' [] = findRelPath cwd_world 2 (Dir ''b'') (Base ''b'' # [])"
    by (rule findRelPath_step [where fi = "dir_on 2"]) (simp_all add: cwd_paths cwd_lstat)
  with d have "findRelPath cwd_world 2 ''b'' [] = None" by (simp add: cwd_paths)
  then have b: "MountRelPath cwd_world ''b'' = None"
    by (simp add: MountRelPath_def cwd_paths cwd_lstat)
  from a b d show ?thesis by (simp add: cwd_paths cwd_lstat)
qed

section \<open>Where the walk stops\<close>

lemma ancestor_Dir: "ancestor_or_equal x p \<Longrightarrow> ancestor_or_equal (Dir x) p"
  by (induction rule: ancestor_or_equal.induct)
     (auto intro: ancestor_or_equal.intros)

lemma walk_ancestor: "walk_reaches w dev p x \<Longrightarrow> ancestor_or_equal x p"
  by (induction rule: walk_reaches.induct)
     (auto intro: ancestor_or_equal.self ancestor_Dir)

lemma walk_continues_iff:
  "walk_continues w dev x \<longleftrightarrow>
     (\<exists>fi. os_Lstat w (Dir x) = Inr fi \<and> rootDevice fi = Returns dev \<and> x \<noteq> ''/'')"
  by (auto simp: walk_continues_def split: sum.splits)

lemma walk_prepend:
  assumes "walk_continues w dev p" and "walk_reaches w dev (Dir p) x"
  shows "walk_reaches w dev p x"
  using assms(2)
proof (induction rule: walk_reaches.induct)
  case start
  from assms(1) obtain fi where "os_Lstat w (Dir p) = Inr fi" "rootDevice fi = Returns dev" "p \<noteq> ''/''"
    by (auto simp: walk_continues_iff)
  then show ?case by (rule walk_reaches.step [OF walk_reaches.start])
next
  case (step x fi)
  then show ?case by (auto intro: walk_reaches.step)
qed

lemma findRoot_continue:
  "walk_continues w dev x \<Longrightarrow> findRoot w dev x = findRoot w dev (Dir x)"
  by (auto simp: walk_continues_iff intro: findRoot_step)

lemma findRoot_stop:
  "\<not> walk_continues w dev x \<Longrightarrow>
   findRoot w dev x =
     (case os_Lstat w (Dir x) of
        Inl err \<Rightarrow> Some (Returns [])
      | Inr fi \<Rightarrow>
          (case rootDevice fi of
             Panics pn \<Rightarrow> Some (Panics pn)
           | Returns d \<Rightarrow>
               Some (Returns (if isDotLustre w (Join [x, ''.lustre'']) then x else []))))"
  by (subst findRoot.simps) (auto simp: walk_continues_def Let_def split: sum.splits run.splits)

text \<open>Every result of \<^verbatim>\<open>findRoot\<close> is computed at a pathname the walk reaches and
  stops at.\<close>

lemma findRoot_result:
  assumes "findRoot w dev p = Some y"
  shows "\<exists>x. walk_reaches w dev p x \<and> \<not> walk_continues w dev x \<and> findRoot w dev x = Some y"
proof (rule findRoot.raw_induct
    [where P = "\<lambda>w dev p y. \<exists>x. walk_reaches w dev p x \<and> \<not> walk_continues w dev x \<and>
                              findRoot w dev x = Some y", OF _ assms])
  fix f and w :: "'a world" and dev p y
  assume ih: "\<And>w dev p y. f w dev p = Some y \<Longrightarrow>
      \<exists>x. walk_reaches w dev p x \<and> \<not> walk_continues w dev x \<and> findRoot w dev x = Some y"
    and body: "(let parent = Dir p
      in case os_Lstat w parent of
           Inl err \<Rightarrow> Some (Returns [])
         | Inr fi \<Rightarrow>
             (case rootDevice fi of
                Returns d \<Rightarrow>
                  if d \<noteq> dev \<or> p = ''/'' then
                    (if isDotLustre w (Join [p, ''.lustre''])
                     then Some (Returns p)
                     else Some (Returns []))
                  else f w dev parent
              | Panics pn \<Rightarrow> Some (Panics pn))) = Some y"
  show "\<exists>x. walk_reaches w dev p x \<and> \<not> walk_continues w dev x \<and> findRoot w dev x = Some y"
  proof (cases "walk_continues w dev p")
    case True
    then obtain fi where "os_Lstat w (Dir p) = Inr fi" "rootDevice fi = Returns dev" "p \<noteq> ''/''"
      by (auto simp: walk_continues_iff)
    with body have "f w dev (Dir p) = Some y" by (simp add: Let_def)
    from ih [OF this] obtain x where "walk_reaches w dev (Dir p) x"
      "\<not> walk_continues w dev x" "findRoot w dev x = Some y" by blast
    with walk_prepend [OF True] show ?thesis by blast
  next
    case False
    with body have "findRoot w dev p = Some y"
      by (subst findRoot.simps)
         (auto simp: walk_continues_def Let_def split: sum.splits run.splits if_splits)
    with False show ?thesis by (blast intro: walk_reaches.start)
  qed
qed

lemma findRoot_returns_reached:
  assumes "findRoot w dev p = Some (Returns r)" and "r \<noteq> []"
  shows "walk_reaches w dev p r \<and> \<not> walk_continues w dev r \<and>
         (\<exists>fi d. os_Lstat w (Dir r) = Inr fi \<and> rootDevice fi = Returns d) \<and>
         isDotLustre w (Join [r, ''.lustre''])"
proof -
  from findRoot_result [OF assms(1)] obtain x where
    x: "walk_reaches w dev p x" "\<not> walk_continues w dev x" "findRoot w dev x = Some (Returns r)"
    by blast
  from x(3) findRoot_stop [OF x(2)] assms(2)
  have "r = x \<and> (\<exists>fi d. os_Lstat w (Dir x) = Inr fi \<and> rootDevice fi = Returns d) \<and>
      isDotLustre w (Join [x, ''.lustre''])"
    by (auto split: sum.splits run.splits if_splits)
  with x show ?thesis by simp
qed

section \<open>The root returned is an ancestor of the input\<close>

lemma walk_clean:
  assumes "nf b S" and "walk_reaches w dev (render b S) x"
  shows "\<exists>st1 st2. S = st2 @ st1 \<and> x = render b st1"
  using assms(2)
proof (induction rule: walk_reaches.induct)
  case start
  show ?case by (intro exI [of _ S] exI [of _ "[]"]) simp
next
  case (step x fi)
  then obtain st1 st2 where dec: "S = st2 @ st1" and x: "x = render b st1" by blast
  show ?case
  proof (cases st1)
    case Nil
    with x step.hyps(4) have "x = ''.''" by (simp add: render_def split: if_splits)
    then have "Dir x = x" by (simp add: Dir_fixed)
    with dec x show ?thesis by blast
  next
    case (Cons t st1')
    from assms(1) dec have "nf b st1" using nf_bottom by blast
    with Cons x have "Dir x = render b st1'" by (simp add: Dir_render)
    moreover from dec Cons have "S = (st2 @ [t]) @ st1'" by simp
    ultimately show ?thesis by blast
  qed
qed

lemma walk_stat:
  assumes "os_Lstat w p = Inr fi" and "rootDevice fi = Returns dev"
    and "walk_reaches w dev p x"
  shows "\<exists>fi'. os_Lstat w x = Inr fi' \<and> rootDevice fi' = Returns dev"
  using assms(3)
proof (induction rule: walk_reaches.induct)
  case start
  from assms(1,2) show ?case by blast
next
  case (step x fi)
  then show ?case by blast
qed

lemma buf_append:
  "st1 \<noteq> [] \<Longrightarrow> st2 \<noteq> [] \<Longrightarrow> buf b (st2 @ st1) = buf b st1 @ ''/'' @ buf False st2"
proof (induction st2)
  case Nil
  then show ?case by simp
next
  case (Cons t st2)
  show ?case
  proof (cases "st2 = []")
    case True
    with Cons.prems show ?thesis by (simp add: buf_Cons)
  next
    case False
    with Cons have "buf b (st2 @ st1) = buf b st1 @ ''/'' @ buf False st2" by simp
    with False show ?thesis by (simp add: buf_Cons)
  qed
qed

lemma render_prefix:
  assumes "b \<or> st1 \<noteq> []"
  shows "render b st1 = render b (st2 @ st1) \<or> render b st1 = ''/'' \<or>
         (\<exists>rest. render b (st2 @ st1) = render b st1 @ ''/'' @ rest)"
proof (cases "st2 = []")
  case True
  then show ?thesis by simp
next
  case ne2: False
  show ?thesis
  proof (cases "st1 = []")
    case True
    with assms show ?thesis by (simp add: render_def)
  next
    case False
    with ne2 have "render b (st2 @ st1) = render b st1 @ ''/'' @ buf False st2"
      by (simp add: render_def buf_append)
    then show ?thesis by blast
  qed
qed

text \<open>
  Claim C5.  A root returned by \<^verbatim>\<open>MountRoot(p)\<close> without error is \<open>p\<close> or an ancestor
  of \<open>p\<close>: it is reached from \<open>p\<close> by taking the parent directory zero or more
  times.  For an input that is already clean this is visible in the strings:
  the root is \<open>p\<close>, or \<^verbatim>\<open>/\<close>, or \<open>p\<close> continues after the root with a slash.
\<close>

theorem MountRoot_returns_ancestor:
  "MountRoot w p = Some (Returns (r, None)) \<Longrightarrow>
     ancestor_or_equal r p \<and>
     (Clean p = p \<longrightarrow> r = p \<or> r = ''/'' \<or> (\<exists>rest. p = r @ ''/'' @ rest))"
proof -
  assume m: "MountRoot w p = Some (Returns (r, None))"
  then obtain fi where l: "os_Lstat w p = Inr fi"
    by (cases "os_Lstat w p") (simp_all add: MountRoot_def)
  from m l obtain dev where d: "rootDevice fi = Returns dev"
    by (cases "rootDevice fi") (simp_all add: MountRoot_def)
  from m l d have f: "findRoot w dev p = Some (Returns r)" and ne: "r \<noteq> []"
    by (auto simp: MountRoot_def split: option.splits run.splits if_splits)
  from findRoot_returns_reached [OF f ne]
  have wr: "walk_reaches w dev p r" and stop: "\<not> walk_continues w dev r" by simp_all
  from wr have a: "ancestor_or_equal r p" by (rule walk_ancestor)
  have "r = p \<or> r = ''/'' \<or> (\<exists>rest. p = r @ ''/'' @ rest)" if c: "Clean p = p"
  proof -
    define b where "b = rooted p"
    define S where "S = norm_stack b p"
    have n: "nf b S" unfolding S_def by (rule nf_norm_stack)
    from c have p: "p = render b S" by (simp add: Clean_render b_def S_def)
    from wr have "walk_reaches w dev (render b S) r" by (simp add: p [symmetric])
    from walk_clean [OF n this] obtain st1 st2 where
      dec: "S = st2 @ st1" and r: "r = render b st1" by blast
    have nd: "b \<or> st1 \<noteq> []"
    proof (rule ccontr)
      assume "\<not> (b \<or> st1 \<noteq> [])"
      with r have rd: "r = ''.''" by (simp add: render_def)
      from walk_stat [OF l d wr] obtain fi' where
        "os_Lstat w r = Inr fi'" "rootDevice fi' = Returns dev" by blast
      with rd have "walk_continues w dev r" by (simp add: walk_continues_iff Dir_fixed)
      with stop show False by simp
    qed
    from render_prefix [OF nd, of st2] show ?thesis by (simp add: p r dec)
  qed
  with a show ?thesis by simp
qed

lemma demo_MountRoot:
  "MountRoot demo_world ''/mnt/fs/a/b/c'' = Some (Returns (''/mnt/fs'', None))"
proof -
  have "findRoot demo_world 2 ''/mnt/fs/a/b/c'' = findRoot demo_world 2 ''/mnt/fs''"
    by (rule walk_findRoot [OF demo_walk])
  also have "\<dots> = Some (Returns ''/mnt/fs'')"
    using findRoot_boundary [of demo_world "''/mnt/fs''" "dir_on 1" 1 2]
    by (simp add: demo_paths demo_lstat_more demo_sentinel)
  finally show ?thesis by (simp add: MountRoot_def)
qed

lemma demo_clean: "Clean ''/mnt/fs/a/b/c'' = ''/mnt/fs/a/b/c''"
  by code_simp

theorem MountRoot_returns_ancestor_witness:
  "MountRoot demo_world ''/mnt/fs/a/b/c'' = Some (Returns (''/mnt/fs'', None)) \<and>
   Clean ''/mnt/fs/a/b/c'' = ''/mnt/fs/a/b/c'' \<and>
   ancestor_or_equal ''/mnt/fs'' ''/mnt/fs/a/b/c'' \<and>
   (\<exists>rest. ''/mnt/fs/a/b/c'' = ''/mnt/fs'' @ ''/'' @ rest)"
  using MountRoot_returns_ancestor [OF demo_MountRoot] demo_MountRoot demo_clean
  by auto

section \<open>A path outside every mount\<close>

lemma findRoot_terminates_clean:
  "nf True st \<Longrightarrow> \<exists>y. findRoot w dev (render True st) = Some y"
proof (induction st)
  case Nil
  have "\<not> walk_continues w dev (render True [])"
    by (simp add: walk_continues_def render_def split: sum.splits)
  from findRoot_stop [OF this] show ?case by (auto split: sum.splits run.splits)
next
  case (Cons t st)
  show ?case
  proof (cases "walk_continues w dev (render True (t # st))")
    case True
    from Cons.prems have "nf True st" by (rule nf_tail)
    with Cons.IH obtain y where "findRoot w dev (render True st) = Some y" by blast
    with findRoot_continue [OF True] Dir_render [OF Cons.prems] show ?thesis by simp
  next
    case False
    from findRoot_stop [OF this] show ?thesis by (auto split: sum.splits run.splits)
  qed
qed

lemma last_index_from_found:
  "j < n \<Longrightarrow> s ! j = c \<Longrightarrow> int j \<le> last_index_from s c n"
proof (induction n)
  case 0
  then show ?case by simp
next
  case (Suc n)
  show ?case
  proof (cases "j = n")
    case True
    with Suc.prems show ?thesis by simp
  next
    case False
    with Suc.prems have jn: "j < n" by simp
    with Suc have "int j \<le> last_index_from s c n" by simp
    with jn show ?thesis by simp
  qed
qed

lemma rooted_Split: "rooted p \<Longrightarrow> rooted (fst (Split p))"
proof -
  assume r: "rooted p"
  then obtain s where p: "p = CHR ''/'' # s" by (cases p) (auto simp: rooted_def)
  have "int 0 \<le> last_index_from p (CHR ''/'') (length p)"
    by (rule last_index_from_found) (simp_all add: p)
  then have "0 < nat (LastIndexByte p (CHR ''/'') + 1)"
    by (simp add: LastIndexByte_def)
  then obtain k where k: "nat (LastIndexByte p (CHR ''/'') + 1) = Suc k"
    by (cases "nat (LastIndexByte p (CHR ''/'') + 1)") auto
  have "fst (Split p) = take (Suc k) p"
    unfolding Split_def Let_def k by simp
  then show ?thesis by (simp add: p rooted_def)
qed

lemma Dir_rooted_clean:
  "rooted p \<Longrightarrow> \<exists>st. nf True st \<and> Dir p = render True st"
proof -
  assume "rooted p"
  then have "rooted (fst (Split p))" by (rule rooted_Split)
  then have "Dir p = render True (norm_stack True (fst (Split p)))"
    by (simp add: Dir_def Clean_render)
  with nf_norm_stack [of True "fst (Split p)"] show ?thesis by blast
qed

text \<open>From an absolute path the walk returns: the parent of an absolute path is a
  clean absolute path, and on those each step removes the last component.\<close>

lemma findRoot_terminates_rooted:
  assumes "rooted p"
  shows "\<exists>y. findRoot w dev p = Some y"
proof (cases "walk_continues w dev p")
  case True
  from Dir_rooted_clean [OF assms] obtain st where "nf True st" "Dir p = render True st" by blast
  with findRoot_terminates_clean [of st w dev] findRoot_continue [OF True] show ?thesis by simp
next
  case False
  from findRoot_stop [OF this] show ?thesis by (auto split: sum.splits run.splits)
qed

lemma abs_path_snoc: "cs \<noteq> [] \<Longrightarrow> abs_path (cs @ [t]) = abs_path cs @ ''/'' @ t"
  by (simp add: abs_path_def)

lemma render_abs_path: "render True st = abs_path (rev st)"
proof (induction st)
  case Nil
  show ?case by (simp add: render_def abs_path_def)
next
  case (Cons t st)
  show ?case
  proof (cases "st = []")
    case True
    then show ?thesis by (simp add: render_def abs_path_def)
  next
    case False
    with Cons have "buf True st = abs_path (rev st)" by (simp add: render_def)
    with False show ?thesis by (simp add: render_def buf_Cons abs_path_snoc)
  qed
qed

lemma path_down_to_clean:
  assumes "nf True S" and "k \<le> length S"
  shows "path_down_to (render True S) ! k = render True (drop (length S - k) S)"
proof -
  have t: "tokens (render True S) = rev S" by (rule tokens_render [OF assms(1)]) simp
  from assms(2) have "k < length [0..<Suc (length S)]" by simp
  then have "path_down_to (render True S) ! k = abs_path (take k (rev S))"
    unfolding path_down_to_def t by (simp del: upt_Suc)
  then show ?thesis by (simp add: render_abs_path take_rev)
qed

lemma length_path_down_to: "nf True S \<Longrightarrow> length (path_down_to (render True S)) = Suc (length S)"
  by (simp add: path_down_to_def tokens_render)

lemma device_of_iff:
  "device_of w x = Some dev \<longleftrightarrow> (\<exists>fi. os_Lstat w x = Inr fi \<and> rootDevice fi = Returns dev)"
  by (auto simp: device_of_def rootDevice_def split: sum.splits option.splits)

lemma statable_iff:
  "statable w x \<longleftrightarrow> (\<exists>fi dev. os_Lstat w x = Inr fi \<and> rootDevice fi = Returns dev)"
  by (auto simp: statable_def device_of_def rootDevice_def split: sum.splits option.splits)

text \<open>The pathnames between a clean input and a pathname the walk reaches are all on
  the device looked for.\<close>

lemma walk_clean_device:
  assumes "nf b S" and "os_Lstat w (render b S) = Inr fi0" and "rootDevice fi0 = Returns dev"
    and "walk_reaches w dev (render b S) x"
  shows "\<exists>st1 st2. S = st2 @ st1 \<and> x = render b st1 \<and>
           (\<forall>j\<le>length st2. device_of w (render b (drop j S)) = Some dev)"
  using assms(4)
proof (induction rule: walk_reaches.induct)
  case start
  from assms(2,3) have "device_of w (render b S) = Some dev" by (auto simp: device_of_iff)
  then have "S = [] @ S \<and> render b S = render b S \<and>
      (\<forall>j\<le>length ([] :: string list). device_of w (render b (drop j S)) = Some dev)" by simp
  then show ?case by blast
next
  case (step x fi)
  then obtain st1 st2 where dec: "S = st2 @ st1" and x: "x = render b st1"
    and dv: "\<forall>j\<le>length st2. device_of w (render b (drop j S)) = Some dev" by blast
  show ?case
  proof (cases st1)
    case Nil
    with x step.hyps(4) have "x = ''.''" by (simp add: render_def split: if_splits)
    then have "Dir x = x" by (simp add: Dir_fixed)
    with dec x dv show ?thesis by metis
  next
    case (Cons t st1')
    from assms(1) dec have "nf b st1" using nf_bottom by blast
    with Cons x have d: "Dir x = render b st1'" by (simp add: Dir_render)
    from dec Cons have dec': "S = (st2 @ [t]) @ st1'" by simp
    from step.hyps(2,3) have dd: "device_of w (Dir x) = Some dev" by (auto simp: device_of_iff)
    have "\<forall>j\<le>length (st2 @ [t]). device_of w (render b (drop j S)) = Some dev"
    proof (intro allI impI)
      fix j assume j: "j \<le> length (st2 @ [t])"
      show "device_of w (render b (drop j S)) = Some dev"
      proof (cases "j \<le> length st2")
        case True
        with dv show ?thesis by simp
      next
        case False
        with j have "j = Suc (length st2)" by simp
        then have "drop j S = st1'" by (simp add: dec Cons)
        with dd d show ?thesis by simp
      qed
    qed
    with dec' d show ?thesis by blast
  qed
qed

lemma render_root_iff: "nf True st \<Longrightarrow> render True st = ''/'' \<longleftrightarrow> st = []"
proof
  assume n: "nf True st" and r: "render True st = ''/''"
  have "tokens ''/'' = []" by code_simp
  with tokens_render [OF n] r show "st = []" by simp
next
  assume "st = []"
  then show "render True st = ''/''" by (simp add: render_def)
qed

text \<open>On a clean absolute pathname the sentinel test of the walk looks at the entry
  \<^verbatim>\<open>.lustre\<close> of that directory.\<close>

lemma Join_sentinel:
  assumes "nf True st"
  shows "Join [render True st, ''.lustre''] = sentinel_of (render True st)"
proof -
  have n: "nf True ([''.lustre''] @ st)" using assms by (simp add: normal_def)
  have "render False [''.lustre''] = ''.lustre''" by (simp add: render_def)
  with Join_root_rel [OF n] have "Join [render True st, ''.lustre''] = render True (''.lustre'' # st)"
    by simp
  also have "\<dots> = sentinel_of (render True st)"
    using render_root_iff [OF assms] by (simp add: sentinel_of_def render_def buf_Cons)
  finally show ?thesis .
qed

lemma isDotLustre_sentinel: "isDotLustre w (sentinel_of x) = carries_sentinel w x"
  by (auto simp: isDotLustre_def carries_sentinel_def split: sum.splits)

text \<open>
  Claim C2, as amended.  \<^verbatim>\<open>MountRoot\<close> has one failure channel, its \<^verbatim>\<open>error\<close> result.
  Take an absolute path in cleaned form that can be stat-ed, whose ancestor
  directories can all be stat-ed, and that is outside any Lustre mount: no
  directory from \<^verbatim>\<open>/\<close> down to the path carries the sentinel with everything from it
  down to the path on the path's device.  Then \<^verbatim>\<open>MountRoot\<close> returns the empty root
  together with the error \<^verbatim>\<open>"<path> not a Lustre filesystem"\<close>.
\<close>

theorem MountRoot_outside_mount_is_error:
  "rooted p \<and> Clean p = p \<and> statable w p \<and> ancestors_statable w p \<and> outside_any_mount w p
   \<Longrightarrow> MountRoot w p = Some (Returns ([], Some (Errorf (p @ '' not a Lustre filesystem''))))"
proof -
  assume h: "rooted p \<and> Clean p = p \<and> statable w p \<and> ancestors_statable w p \<and>
    outside_any_mount w p"
  then have r: "rooted p" and c: "Clean p = p" and sp: "statable w p"
    and an: "ancestors_statable w p" and out: "outside_any_mount w p" by simp_all
  define S where "S = norm_stack True p"
  have n: "nf True S" unfolding S_def by (rule nf_norm_stack)
  from c r have p: "p = render True S" by (simp add: Clean_render S_def)
  from sp obtain fi dev where l: "os_Lstat w p = Inr fi" and d: "rootDevice fi = Returns dev"
    by (auto simp: statable_iff)
  then have dp: "device_of w p = Some dev" by (auto simp: device_of_iff)
  have len: "length (path_down_to p) = Suc (length S)"
    unfolding p by (rule length_path_down_to [OF n])
  have nth: "\<And>k. k \<le> length S \<Longrightarrow> path_down_to p ! k = render True (drop (length S - k) S)"
    unfolding p by (rule path_down_to_clean [OF n])
  have anc: "\<And>k. k < length S \<Longrightarrow> statable w (render True (drop (length S - k) S))"
  proof -
    fix k assume k: "k < length S"
    then have "k < length (butlast (path_down_to p))" by (simp add: len)
    moreover from this have "butlast (path_down_to p) ! k = path_down_to p ! k"
      by (simp add: nth_butlast)
    ultimately have "statable w (path_down_to p ! k)"
      using an by (auto simp: ancestors_statable_def list_all_length)
    with k show "statable w (render True (drop (length S - k) S))" by (simp add: nth)
  qed
  from findRoot_terminates_rooted [OF r] obtain y where y: "findRoot w dev p = Some y" by blast
  from findRoot_result [OF y] obtain x where
    x: "walk_reaches w dev p x" "\<not> walk_continues w dev x" "findRoot w dev x = Some y" by blast
  from l d x(1) have "walk_reaches w dev (render True S) x"
    and "os_Lstat w (render True S) = Inr fi" by (simp_all add: p [symmetric])
  from walk_clean_device [OF n this(2) d this(1)] obtain st1 st2 where
    dec: "S = st2 @ st1" and xr: "x = render True st1"
    and dv: "\<forall>j\<le>length st2. device_of w (render True (drop j S)) = Some dev" by blast
  from n dec have n1: "nf True st1" using nf_bottom by blast
  have sd: "statable w (Dir x)"
  proof (cases st1)
    case Nil
    then have x0: "x = ''/''" by (simp add: xr render_def)
    show ?thesis
    proof (cases "S = []")
      case True
      with p sp x0 show ?thesis by (simp add: render_def Dir_fixed)
    next
      case False
      then have "0 < length S" by simp
      from anc [OF this] x0 show ?thesis by (simp add: render_def Dir_fixed)
    qed
  next
    case (Cons t st1')
    with n1 xr have dx: "Dir x = render True st1'" by (simp add: Dir_render)
    have k: "length st1' < length S" by (simp add: dec Cons)
    have "drop (length S - length st1') S = st1'" by (simp add: dec Cons)
    with anc [OF k] dx show ?thesis by simp
  qed
  then obtain fi' d' where l': "os_Lstat w (Dir x) = Inr fi'" and d': "rootDevice fi' = Returns d'"
    by (auto simp: statable_iff)
  have ns: "\<not> isDotLustre w (Join [x, ''.lustre''])"
  proof
    assume "isDotLustre w (Join [x, ''.lustre''])"
    then have cs: "carries_sentinel w x"
      by (simp add: xr Join_sentinel [OF n1] isDotLustre_sentinel)
    let ?k = "length st1"
    have k: "?k \<le> length S" by (simp add: dec)
    have "drop (length S - ?k) S = st1" by (simp add: dec)
    with nth [OF k] have xk: "path_down_to p ! ?k = x" by (simp add: xr)
    have "list_all (\<lambda>z. device_of w z = device_of w p) (drop ?k (path_down_to p))"
      unfolding list_all_length
    proof (intro allI impI)
      fix i assume i: "i < length (drop ?k (path_down_to p))"
      then have ik: "?k + i \<le> length S" by (simp add: len)
      have "drop ?k (path_down_to p) ! i = path_down_to p ! (?k + i)"
        using i by simp
      also have "\<dots> = render True (drop (length S - (?k + i)) S)" by (rule nth [OF ik])
      finally have e: "drop ?k (path_down_to p) ! i = render True (drop (length S - (?k + i)) S)" .
      have "length S - (?k + i) \<le> length st2" by (simp add: dec)
      with dv have "device_of w (render True (drop (length S - (?k + i)) S)) = Some dev" by blast
      with e dp show "device_of w (drop ?k (path_down_to p) ! i) = device_of w p" by simp
    qed
    with cs xk have "inside_mount w p ?k" by (simp add: inside_mount_def)
    moreover from k have "?k \<in> set [0..<length (path_down_to p)]" by (auto simp: len)
    ultimately show False using out by (auto simp: outside_any_mount_def list_all_iff)
  qed
  from x(3) findRoot_stop [OF x(2)] l' d' ns have "y = Returns []" by simp
  with y l d show ?thesis by (simp add: MountRoot_def)
qed

lemma demo_unrelated_paths:
  "Dir ''/tmp/unrelated'' = ''/tmp''" "Dir ''/tmp'' = ''/''"
  "Join [''/tmp/unrelated'', ''.lustre''] = ''/tmp/unrelated/.lustre''"
  "Join [''/tmp'', ''.lustre''] = ''/tmp/.lustre''"
  by code_simp+

lemma demo_unrelated_lstat:
  "os_Lstat demo_world ''/tmp/unrelated'' = Inr (file_on 3)"
  "os_Lstat demo_world ''/tmp'' = Inr (dir_on 3)"
  "os_Lstat demo_world ''/'' = Inr (dir_on 1)"
  "os_Lstat demo_world ''/tmp/unrelated/.lustre'' = Inl (OSError 2)"
  by (simp_all add: demo_world_def lookup_in_def)

lemma unrelated_down: "path_down_to ''/tmp/unrelated'' = [''/'', ''/tmp'', ''/tmp/unrelated'']"
  by code_simp

lemma nested_down:
  "path_down_to ''/mnt/fs/scratch/x'' =
     [''/'', ''/mnt'', ''/mnt/fs'', ''/mnt/fs/scratch'', ''/mnt/fs/scratch/x'']"
  by code_simp

lemma dotdot_down:
  "path_down_to ''/mnt/fs/l/..'' = [''/'', ''/mnt'', ''/mnt/fs'', ''/mnt/fs/l'', ''/mnt/fs/l/..'']"
  by code_simp

lemma demo_device:
  "device_of demo_world ''/'' = Some 1" "device_of demo_world ''/tmp'' = Some 3"
  "device_of demo_world ''/tmp/unrelated'' = Some 3"
  by (simp_all add: device_of_def demo_world_def lookup_in_def dir_on_def file_on_def)

lemma demo_no_sentinel:
  "\<not> carries_sentinel demo_world ''/''" "\<not> carries_sentinel demo_world ''/tmp''"
  "\<not> carries_sentinel demo_world ''/tmp/unrelated''"
  by (simp_all add: carries_sentinel_def sentinel_of_def demo_world_def lookup_in_def file_on_def)

lemma unrelated_outside:
  "rooted ''/tmp/unrelated''" "Clean ''/tmp/unrelated'' = ''/tmp/unrelated''"
  "statable demo_world ''/tmp/unrelated''" "ancestors_statable demo_world ''/tmp/unrelated''"
  "outside_any_mount demo_world ''/tmp/unrelated''"
proof -
  show "rooted ''/tmp/unrelated''" by (simp add: rooted_def)
  show "Clean ''/tmp/unrelated'' = ''/tmp/unrelated''" by code_simp
  show "statable demo_world ''/tmp/unrelated''" by (simp add: statable_def demo_device)
  show "ancestors_statable demo_world ''/tmp/unrelated''"
    by (simp add: ancestors_statable_def unrelated_down statable_def demo_device)
  show "outside_any_mount demo_world ''/tmp/unrelated''"
    by (simp add: outside_any_mount_def unrelated_down inside_mount_def demo_no_sentinel
        upt_rec [of 0] upt_rec [of 1] upt_rec [of 2] upt_rec [of 3])
qed

lemma mixed_device:
  "device_of mixed_world ''/'' = Some 1" "device_of mixed_world ''/mnt'' = Some 1"
  "device_of mixed_world ''/mnt/fs'' = Some 2" "device_of mixed_world ''/mnt/fs/scratch'' = Some 5"
  "device_of mixed_world ''/mnt/fs/scratch/x'' = Some 5"
  "device_of mixed_world ''/mnt/fs/l'' = Some 2" "device_of mixed_world ''/mnt/fs/l/..'' = Some 7"
  by (simp_all add: device_of_def mixed_world_def lookup_in_def dir_on_def file_on_def)

lemma mixed_sentinel:
  "\<not> carries_sentinel mixed_world ''/''" "\<not> carries_sentinel mixed_world ''/mnt''"
  "carries_sentinel mixed_world ''/mnt/fs''"
  "\<not> carries_sentinel mixed_world ''/mnt/fs/scratch''"
  "\<not> carries_sentinel mixed_world ''/mnt/fs/scratch/x''"
  "\<not> carries_sentinel mixed_world ''/mnt/fs/l''"
  "\<not> carries_sentinel mixed_world ''/mnt/fs/l/..''"
  by (simp_all add: carries_sentinel_def sentinel_of_def mixed_world_def demo_world_def
      lookup_in_def dir_on_def)

lemma nested_outside:
  "rooted ''/mnt/fs/scratch/x''" "Clean ''/mnt/fs/scratch/x'' = ''/mnt/fs/scratch/x''"
  "statable mixed_world ''/mnt/fs/scratch/x''" "ancestors_statable mixed_world ''/mnt/fs/scratch/x''"
  "outside_any_mount mixed_world ''/mnt/fs/scratch/x''"
proof -
  show "rooted ''/mnt/fs/scratch/x''" by (simp add: rooted_def)
  show "Clean ''/mnt/fs/scratch/x'' = ''/mnt/fs/scratch/x''" by code_simp
  show "statable mixed_world ''/mnt/fs/scratch/x''" by (simp add: statable_def mixed_device)
  show "ancestors_statable mixed_world ''/mnt/fs/scratch/x''"
    by (simp add: ancestors_statable_def nested_down statable_def mixed_device)
  show "outside_any_mount mixed_world ''/mnt/fs/scratch/x''"
    by (simp add: outside_any_mount_def nested_down inside_mount_def mixed_sentinel mixed_device
        upt_rec [of 0] upt_rec [of 1] upt_rec [of 2] upt_rec [of 3] upt_rec [of 4] upt_rec [of 5])
qed

lemma dotdot_outside:
  "rooted ''/mnt/fs/l/..''"
  "statable mixed_world ''/mnt/fs/l/..''" "ancestors_statable mixed_world ''/mnt/fs/l/..''"
  "outside_any_mount mixed_world ''/mnt/fs/l/..''"
proof -
  show "rooted ''/mnt/fs/l/..''" by (simp add: rooted_def)
  show "statable mixed_world ''/mnt/fs/l/..''" by (simp add: statable_def mixed_device)
  show "ancestors_statable mixed_world ''/mnt/fs/l/..''"
    by (simp add: ancestors_statable_def dotdot_down statable_def mixed_device)
  show "outside_any_mount mixed_world ''/mnt/fs/l/..''"
    by (simp add: outside_any_mount_def dotdot_down inside_mount_def mixed_sentinel mixed_device
        upt_rec [of 0] upt_rec [of 1] upt_rec [of 2] upt_rec [of 3] upt_rec [of 4] upt_rec [of 5])
qed

lemma dotdot_paths:
  "Dir ''/mnt/fs/l/..'' = ''/mnt/fs/l''"
  "Join [''/mnt/fs/l/..'', ''.lustre''] = ''/mnt/fs/.lustre''"
  by code_simp+

lemma dotdot_MountRoot:
  "MountRoot mixed_world ''/mnt/fs/l/..'' = Some (Returns (''/mnt/fs/l/..'', None))"
proof -
  have l: "os_Lstat mixed_world ''/mnt/fs/l/..'' = Inr (dir_on 7)"
    "os_Lstat mixed_world ''/mnt/fs/l'' = Inr (file_on 2)"
    by (simp_all add: mixed_world_def lookup_in_def)
  have s: "isDotLustre mixed_world ''/mnt/fs/.lustre''"
    using mixed_sentinel(3) by (simp add: isDotLustre_sentinel [symmetric] sentinel_of_def)
  have "findRoot mixed_world 7 ''/mnt/fs/l/..'' = Some (Returns ''/mnt/fs/l/..'')"
    using findRoot_boundary [of mixed_world "''/mnt/fs/l/..''" "file_on 2" 2 7]
    by (simp add: dotdot_paths l s)
  then show ?thesis by (simp add: MountRoot_def l)
qed

theorem MountRoot_outside_mount_is_error_witness:
  "rooted ''/tmp/unrelated'' \<and> Clean ''/tmp/unrelated'' = ''/tmp/unrelated'' \<and>
   statable demo_world ''/tmp/unrelated'' \<and> ancestors_statable demo_world ''/tmp/unrelated'' \<and>
   outside_any_mount demo_world ''/tmp/unrelated'' \<and>
   MountRoot demo_world ''/tmp/unrelated'' =
     Some (Returns ([], Some (Errorf ''/tmp/unrelated not a Lustre filesystem''))) \<and>
   carries_sentinel mixed_world ''/mnt/fs'' \<and>
   device_of mixed_world ''/mnt/fs'' = Some 2 \<and>
   device_of mixed_world ''/mnt/fs/scratch/x'' = Some 5 \<and>
   outside_any_mount mixed_world ''/mnt/fs/scratch/x'' \<and>
   MountRoot mixed_world ''/mnt/fs/scratch/x'' =
     Some (Returns ([], Some (Errorf ''/mnt/fs/scratch/x not a Lustre filesystem'')))"
  using MountRoot_outside_mount_is_error [of "''/tmp/unrelated''" demo_world]
    MountRoot_outside_mount_is_error [of "''/mnt/fs/scratch/x''" mixed_world]
    unrelated_outside nested_outside mixed_sentinel(3) mixed_device
  by simp

text \<open>Claim C2 as stated fails.  \<^verbatim>\<open>/tmp/unrelated\<close> and its ancestors can be stat-ed
  and it is outside any mount: \<^verbatim>\<open>MountRoot\<close> returns a non-nil error.  The relative
  path \<^verbatim>\<open>a\<close> and its parent \<^verbatim>\<open>.\<close> can be stat-ed, on one device, in a file system
  without any sentinel: \<^verbatim>\<open>MountRoot\<close> does not return.  \<^verbatim>\<open>/mnt/fs/l/..\<close> and its
  ancestors can be stat-ed and it is outside any mount, on a device of its own
  and without an entry \<^verbatim>\<open>.lustre\<close>: \<^verbatim>\<open>path.Join\<close> cleans \<^verbatim>\<open>/mnt/fs/l/../.lustre\<close> to
  \<^verbatim>\<open>/mnt/fs/.lustre\<close>, and \<^verbatim>\<open>MountRoot\<close> returns the path itself as a Lustre root.\<close>

theorem MountRoot_not_found_returned_as_error:
  "statable demo_world ''/tmp/unrelated'' \<and> ancestors_statable demo_world ''/tmp/unrelated'' \<and>
   outside_any_mount demo_world ''/tmp/unrelated'' \<and>
   MountRoot demo_world ''/tmp/unrelated'' =
     Some (Returns ([], Some (Errorf ''/tmp/unrelated not a Lustre filesystem''))) \<and>
   MountRoot demo_world ''/tmp/unrelated'' \<noteq> Some (Returns ([], None)) \<and>
   os_Lstat relative_world ''a'' = Inr (file_on 1) \<and>
   os_Lstat relative_world (Dir ''a'') = Inr (dir_on 1) \<and>
   Dir (Dir ''a'') = Dir ''a'' \<and>
   \<not> isDotLustre relative_world ''a/.lustre'' \<and> \<not> isDotLustre relative_world ''./.lustre'' \<and>
   MountRoot relative_world ''a'' = None \<and>
   statable mixed_world ''/mnt/fs/l/..'' \<and> ancestors_statable mixed_world ''/mnt/fs/l/..'' \<and>
   outside_any_mount mixed_world ''/mnt/fs/l/..'' \<and>
   Clean ''/mnt/fs/l/..'' = ''/mnt/fs'' \<and>
   MountRoot mixed_world ''/mnt/fs/l/..'' = Some (Returns (''/mnt/fs/l/..'', None))"
proof -
  have m: "MountRoot demo_world ''/tmp/unrelated'' =
     Some (Returns ([], Some (Errorf ''/tmp/unrelated not a Lustre filesystem'')))"
  proof -
    have "findRoot demo_world 3 ''/tmp/unrelated'' = findRoot demo_world 3 ''/tmp''"
      using findRoot_step [of demo_world "''/tmp/unrelated''" "dir_on 3" 3]
      by (simp add: demo_unrelated_paths demo_unrelated_lstat)
    also have "\<dots> = Some (Returns [])"
      using findRoot_boundary [of demo_world "''/tmp''" "dir_on 1" 1 3]
      by (simp add: demo_unrelated_paths demo_unrelated_lstat isDotLustre_def file_on_def)
    finally show ?thesis by (simp add: MountRoot_def demo_unrelated_lstat)
  qed
  have d: "findRoot relative_world 1 ''.'' = None"
    by (rule findRoot_fixed_point_diverges [where fi = "dir_on 1"])
       (simp_all add: relative_paths relative_lstat)
  have "findRoot relative_world 1 ''a'' = findRoot relative_world 1 (Dir ''a'')"
    by (rule findRoot_step [where fi = "dir_on 1"]) (simp_all add: relative_paths relative_lstat)
  with d have "findRoot relative_world 1 ''a'' = None" by (simp add: relative_paths)
  then have r: "MountRoot relative_world ''a'' = None"
    by (simp add: MountRoot_def relative_lstat)
  have s: "\<not> isDotLustre relative_world ''a/.lustre''" "\<not> isDotLustre relative_world ''./.lustre''"
    by (simp_all add: isDotLustre_def relative_world_def lookup_in_def)
  have c: "Clean ''/mnt/fs/l/..'' = ''/mnt/fs''" by code_simp
  from m r s c unrelated_outside dotdot_outside dotdot_MountRoot show ?thesis
    by (simp add: relative_paths relative_lstat)
qed

end
